theory Spec2Isabelle
  imports Main "HOL-Library.Word" "HOL-Library.Multiset"
begin

chapter \<open>The model\<close>

section \<open>Cache manager with LRU replacement\<close>

text \<open>
  The class \<open>cache_manager_lru<T, W>\<close>. Keys are \<open>TPIE_OS_OFFSET\<close>, a 64-bit integer;
  the only operations on a key are the comparison with another key and \<open>k % sets_\<close>, where
  \<open>sets_\<close> is an unsigned \<open>TPIE_OS_SIZE_T\<close>, so that the key is read as an unsigned
  64-bit number (\<open>unat\<close>). Sizes never overflow here and are natural numbers. The fields
  \<open>capacity_\<close>, \<open>assoc_\<close>, \<open>sets_\<close>, \<open>pdata_\<close> and \<open>writeout_\<close> lose their
  trailing underscore. The writeout functor \<open>W\<close> is supplied by the user; the model
  records the values handed to it, in order, in the field \<open>writeout\<close>.
\<close>

type_synonym TPIE_OS_OFFSET = "64 word"

type_synonym 'T item_type = "TPIE_OS_OFFSET \<times> 'T"

datatype cache_error = AssertionFailed | ModuloByZero

record 'T cache_manager_lru =
  capacity :: nat
  assoc :: nat
  sets :: nat
  pdata :: "'T item_type list"
  writeout :: "'T list"

text \<open>
  A \<open>b_vector\<close> built on \<open>&pdata_[base]\<close> with \<open>n\<close> items is a window on the array:
  \<open>bv_view\<close> reads the window, \<open>bv_store\<close> puts a changed window back in its place.
\<close>

definition bv_view :: "'a list \<Rightarrow> nat \<Rightarrow> nat \<Rightarrow> 'a list" where
  "bv_view p base n = take n (drop base p)"

definition bv_store :: "'a list \<Rightarrow> nat \<Rightarrow> 'a list \<Rightarrow> 'a list" where
  "bv_store p base s = take base p @ s @ drop (base + length s) p"

text \<open>
  Modelled from the spec: \<open>b_vector::insert\<close> and \<open>b_vector::erase\<close>, whose header
  \<open>b_vector.h\<close> is not among the sources. The spec has the new entry inserted at slot 0
  while the prior occupants slide toward the last slot (the last one is lost), and an
  erased slot compacted, the items behind it moving one slot down while the trailing slot
  keeps what it held, to be marked empty by the caller. A position outside the vector
  changes nothing.
\<close>

definition bv_insert :: "'a \<Rightarrow> nat \<Rightarrow> 'a list \<Rightarrow> 'a list" where
  "bv_insert t pos v =
     (if pos < length v then take pos v @ t # take (length v - pos - 1) (drop pos v) else v)"

definition bv_erase :: "nat \<Rightarrow> 'a list \<Rightarrow> 'a list" where
  "bv_erase pos v =
     (if pos < length v then take pos v @ drop (pos + 1) v @ [v ! (length v - 1)] else v)"

text \<open>The constructor; \<open>d\<close> is the default-constructed value of the fresh slots.\<close>

definition cache_manager_lru_new :: "nat \<Rightarrow> nat \<Rightarrow> 'T \<Rightarrow> 'T cache_manager_lru" where
  "cache_manager_lru_new capacity0 assoc0 d =
     (let cap = capacity0;
          asc = (if assoc0 = 0 then capacity0 else assoc0)
      in if cap \<noteq> 0 then
           let asc1 = (if asc > cap then cap else asc);
               cap1 = (if cap mod asc1 \<noteq> 0 then (cap div asc1) * asc1 else cap)
           in \<lparr>capacity = cap1, assoc = asc1, sets = cap1 div asc1,
               pdata = replicate cap1 (0, d), writeout = []\<rparr>
         else \<lparr>capacity = cap, assoc = asc, sets = 0, pdata = [], writeout = []\<rparr>)"

text \<open>The offset of the cache line of key \<open>k\<close>: \<open>(k % sets_) * assoc_\<close>.\<close>

definition line_base :: "'T cache_manager_lru \<Rightarrow> TPIE_OS_OFFSET \<Rightarrow> nat" where
  "line_base c k = (unat k mod sets c) * assoc c"

text \<open>The search loop \<open>for (i = 0; i < n; i++) if (set[i].first == k) break;\<close>.\<close>

function find_key :: "TPIE_OS_OFFSET \<Rightarrow> 'T item_type list \<Rightarrow> nat \<Rightarrow> nat" where
  "find_key k s i =
     (if i < length s then (if fst (s ! i) = k then i else find_key k s (i + 1)) else i)"
  by pat_completeness auto

termination
  by (relation "measure (\<lambda>(k, s, i). length s - i)") auto

declare find_key.simps [simp del]

text \<open>\<open>set[n - 1].first = 0\<close>: the last item of the line is marked empty.\<close>

definition mark_empty :: "'T item_type list \<Rightarrow> nat \<Rightarrow> 'T item_type list" where
  "mark_empty s i = s[i := (0, snd (s ! i))]"

text \<open>
  \<open>read\<close> returns \<open>false\<close> (here \<open>None\<close>) or \<open>true\<close> with the item in its reference
  argument (here \<open>Some item\<close>).
\<close>

definition cache_read ::
  "'T cache_manager_lru \<Rightarrow> TPIE_OS_OFFSET \<Rightarrow> cache_error + ('T option \<times> 'T cache_manager_lru)" where
  "cache_read c k =
     (if capacity c = 0 then Inr (None, c)
      else if k = 0 then Inl AssertionFailed
      else
        let base = line_base c k;
            s = bv_view (pdata c) base (assoc c);
            i = find_key k s 0
        in if i = assoc c then Inr (None, c)
           else
             let item = snd (s ! i);
                 s1 = (if assoc c > 1 then bv_erase i s else s);
                 s2 = mark_empty s1 (assoc c - 1)
             in Inr (Some item, c\<lparr>pdata := bv_store (pdata c) base s2\<rparr>))"

definition cache_write ::
  "'T cache_manager_lru \<Rightarrow> TPIE_OS_OFFSET \<Rightarrow> 'T \<Rightarrow> cache_error + (bool \<times> 'T cache_manager_lru)" where
  "cache_write c k item =
     (if k = 0 then Inl AssertionFailed
      else if capacity c = 0 then Inr (True, c\<lparr>writeout := writeout c @ [item]\<rparr>)
      else
        let base = line_base c k;
            s = bv_view (pdata c) base (assoc c);
            c1 = (if fst (s ! (assoc c - 1)) \<noteq> 0
                  then c\<lparr>writeout := writeout c @ [snd (s ! (assoc c - 1))]\<rparr> else c);
            s1 = (if assoc c > 1 then bv_insert (k, item) 0 s else s[0 := (k, item)])
        in Inr (True, c1\<lparr>pdata := bv_store (pdata c) base s1\<rparr>))"

text \<open>
  \<open>erase\<close> has no test of the capacity: on a cache of capacity 0 the line offset
  \<open>k % sets_\<close> is a modulo by zero.
\<close>

definition cache_erase ::
  "'T cache_manager_lru \<Rightarrow> TPIE_OS_OFFSET \<Rightarrow> cache_error + (bool \<times> 'T cache_manager_lru)" where
  "cache_erase c k =
     (if k = 0 then Inl AssertionFailed
      else if sets c = 0 then Inl ModuloByZero
      else
        let base = line_base c k;
            s = bv_view (pdata c) base (assoc c);
            i = find_key k s 0
        in if i = length s then Inr (False, c)
           else
             let c1 = c\<lparr>writeout := writeout c @ [snd (s ! i)]\<rparr>;
                 s1 = bv_erase i s;
                 s2 = mark_empty s1 (length s - 1)
             in Inr (True, c1\<lparr>pdata := bv_store (pdata c) base s2\<rparr>))"

function flush_loop :: "'T cache_manager_lru \<Rightarrow> nat \<Rightarrow> 'T cache_manager_lru" where
  "flush_loop c i =
     (if i < capacity c then
        (if fst (pdata c ! i) \<noteq> 0
         then flush_loop (c\<lparr>writeout := writeout c @ [snd (pdata c ! i)],
                            pdata := (pdata c)[i := (0, snd (pdata c ! i))]\<rparr>) (i + 1)
         else flush_loop c (i + 1))
      else c)"
  by pat_completeness auto

termination
  by (relation "measure (\<lambda>(c, i). capacity c - i)") auto

declare flush_loop.simps [simp del]

definition cache_flush :: "'T cache_manager_lru \<Rightarrow> 'T cache_manager_lru" where
  "cache_flush c = flush_loop c 0"

text \<open>
  What the constructor establishes and every operation keeps: the array has \<open>capacity\<close>
  items, split in \<open>sets\<close> lines of \<open>assoc\<close> items each.
\<close>

definition wf_cache :: "'T cache_manager_lru \<Rightarrow> bool" where
  "wf_cache c \<longleftrightarrow>
     length (pdata c) = capacity c \<and> capacity c = sets c * assoc c"

text \<open>Line \<open>j\<close> of the cache, slot 0 first.\<close>

definition cache_line :: "'T cache_manager_lru \<Rightarrow> nat \<Rightarrow> 'T item_type list" where
  "cache_line c j = bv_view (pdata c) (j * assoc c) (assoc c)"

datatype 'T cache_op = Read TPIE_OS_OFFSET | Write TPIE_OS_OFFSET 'T | Erase TPIE_OS_OFFSET | Flush

fun cache_step :: "'T cache_manager_lru \<Rightarrow> 'T cache_op \<Rightarrow> cache_error + 'T cache_manager_lru" where
  "cache_step c (Read k) = map_sum id snd (cache_read c k)"
| "cache_step c (Write k v) = map_sum id snd (cache_write c k v)"
| "cache_step c (Erase k) = map_sum id snd (cache_erase c k)"
| "cache_step c Flush = Inr (cache_flush c)"

fun cache_run :: "'T cache_manager_lru \<Rightarrow> 'T cache_op list \<Rightarrow> cache_error + 'T cache_manager_lru" where
  "cache_run c [] = Inr c"
| "cache_run c (x # xs) = (case cache_step c x of Inl e \<Rightarrow> Inl e | Inr c' \<Rightarrow> cache_run c' xs)"

text \<open>An operation on the cache a previous operation returned.\<close>

definition then_write ::
  "cache_error + ('a \<times> 'T cache_manager_lru) \<Rightarrow> TPIE_OS_OFFSET \<Rightarrow> 'T \<Rightarrow>
   cache_error + (bool \<times> 'T cache_manager_lru)" where
  "then_write r k v = (case r of Inl e \<Rightarrow> Inl e | Inr (_, c) \<Rightarrow> cache_write c k v)"

definition then_read ::
  "cache_error + ('a \<times> 'T cache_manager_lru) \<Rightarrow> TPIE_OS_OFFSET \<Rightarrow>
   cache_error + ('T option \<times> 'T cache_manager_lru)" where
  "then_read r k = (case r of Inl e \<Rightarrow> Inl e | Inr (_, c) \<Rightarrow> cache_read c k)"

fun claimed_writebacks :: "'T cache_manager_lru \<Rightarrow> 'T cache_op \<Rightarrow> 'T list" where
  "claimed_writebacks c (Read k) = []"
| "claimed_writebacks c (Write k v) =
     (let s = cache_line c (unat k mod sets c)
      in if s \<noteq> [] \<and> fst (last s) \<noteq> 0 then [snd (last s)] else [])"
| "claimed_writebacks c (Erase k) =
     (case find (\<lambda>e. fst e = k) (cache_line c (unat k mod sets c)) of
        None \<Rightarrow> [] | Some e \<Rightarrow> [snd e])"
| "claimed_writebacks c Flush = map snd (filter (\<lambda>e. fst e \<noteq> 0) (pdata c))"

fun forwarded_writebacks :: "'T cache_manager_lru \<Rightarrow> 'T cache_op \<Rightarrow> 'T list" where
  "forwarded_writebacks c (Write k v) = (if capacity c = 0 then [v] else [])"
| "forwarded_writebacks c x = []"

fun writeback_trace :: "'T cache_manager_lru \<Rightarrow> 'T cache_op list \<Rightarrow> 'T list" where
  "writeback_trace c [] = []"
| "writeback_trace c (x # xs) =
     claimed_writebacks c x @ forwarded_writebacks c x @
     (case cache_step c x of Inl e \<Rightarrow> [] | Inr c' \<Rightarrow> writeback_trace c' xs)"

fun op_admissible :: "'T cache_manager_lru \<Rightarrow> 'T cache_op \<Rightarrow> bool" where
  "op_admissible c (Read k) = (k \<noteq> 0)"
| "op_admissible c (Write k v) = (k \<noteq> 0)"
| "op_admissible c (Erase k) = (k \<noteq> 0 \<and> 0 < capacity c)"
| "op_admissible c Flush = True"

text \<open>A cache of two lines of two slots, used to instantiate the theorems.\<close>

definition demo_cache :: "nat cache_manager_lru" where
  "demo_cache = \<lparr>capacity = 4, assoc = 2, sets = 2,
                 pdata = [(8, 10), (6, 60), (0, 0), (3, 30)], writeout = [5]\<rparr>"

section \<open>Progress indicator\<close>

text \<open>
  The class \<open>progress_indicator_base\<close>. \<open>TPIE_OS_OFFSET\<close> is a signed 64-bit integer:
  the fields are 64-bit words, compared as signed numbers (\<open><s\<close>), and an addition,
  subtraction or division whose result does not fit, undefined in C++, is the error
  \<open>OffsetOverflow\<close>; a division or remainder by zero is an error as well.
  \<open>m_percentageUnit\<close> is an \<open>unsigned short\<close>. The tick counter of \<open>cycle.h\<close> is a
  natural number read from the clock (an argument of each operation), \<open>elapsed\<close> is the
  difference of two readings, and the static \<open>m_threshold\<close> is a parameter. The pointer
  \<open>m_predictor\<close> is an address, 0 for the null pointer. \<open>refresh\<close> is pure virtual and
  changes no field of the base class; the debug log message of \<open>step\<close> is left out.
\<close>

datatype progress_error = OffsetOverflow | DivisionByZero | RemainderByZero

type_synonym ticks = nat

text \<open>Signed 64-bit arithmetic with its undefined cases.\<close>

definition ofs_in_range :: "int \<Rightarrow> bool" where
  "ofs_in_range x \<longleftrightarrow> - (2 ^ 63) \<le> x \<and> x < 2 ^ 63"

definition ofs_add :: "TPIE_OS_OFFSET \<Rightarrow> TPIE_OS_OFFSET \<Rightarrow> progress_error + TPIE_OS_OFFSET" where
  "ofs_add a b = (if ofs_in_range (sint a + sint b) then Inr (a + b) else Inl OffsetOverflow)"

definition ofs_sub :: "TPIE_OS_OFFSET \<Rightarrow> TPIE_OS_OFFSET \<Rightarrow> progress_error + TPIE_OS_OFFSET" where
  "ofs_sub a b = (if ofs_in_range (sint a - sint b) then Inr (a - b) else Inl OffsetOverflow)"

text \<open>The division of C++ truncates toward zero; the remainder goes with it.\<close>

definition c_div :: "int \<Rightarrow> int \<Rightarrow> int" where
  "c_div x y = sgn x * sgn y * (\<bar>x\<bar> div \<bar>y\<bar>)"

definition c_rem :: "int \<Rightarrow> int \<Rightarrow> int" where
  "c_rem x y = x - y * c_div x y"

definition ofs_div :: "TPIE_OS_OFFSET \<Rightarrow> TPIE_OS_OFFSET \<Rightarrow> progress_error + TPIE_OS_OFFSET" where
  "ofs_div a b =
     (if b = 0 then Inl DivisionByZero
      else if ofs_in_range (c_div (sint a) (sint b)) then Inr (word_of_int (c_div (sint a) (sint b)))
      else Inl OffsetOverflow)"

definition ofs_rem :: "TPIE_OS_OFFSET \<Rightarrow> TPIE_OS_OFFSET \<Rightarrow> progress_error + TPIE_OS_OFFSET" where
  "ofs_rem a b =
     (if b = 0 then Inl RemainderByZero
      else if ofs_in_range (c_div (sint a) (sint b)) then Inr (word_of_int (c_rem (sint a) (sint b)))
      else Inl OffsetOverflow)"

text \<open>\<open>std::min(a, b)\<close> is \<open>(b < a) ? b : a\<close> and \<open>std::max(a, b)\<close> is \<open>(a < b) ? b : a\<close>.\<close>

definition std_min :: "TPIE_OS_OFFSET \<Rightarrow> TPIE_OS_OFFSET \<Rightarrow> TPIE_OS_OFFSET" where
  "std_min a b = (if b <s a then b else a)"

definition std_max :: "TPIE_OS_OFFSET \<Rightarrow> TPIE_OS_OFFSET \<Rightarrow> TPIE_OS_OFFSET" where
  "std_max a b = (if a <s b then b else a)"

definition elapsed :: "ticks \<Rightarrow> ticks \<Rightarrow> int" where
  "elapsed t1 t0 = int t1 - int t0"

record progress_indicator_base =
  m_minRange :: TPIE_OS_OFFSET
  m_maxRange :: TPIE_OS_OFFSET
  m_stepValue :: TPIE_OS_OFFSET
  m_current :: TPIE_OS_OFFSET
  m_percentageChecker :: TPIE_OS_OFFSET
  m_percentageValue :: TPIE_OS_OFFSET
  m_percentageUnit :: "16 word"
  m_lastUpdate :: ticks
  m_predictor :: nat

text \<open>The constructor, the copy constructor and the assignment operator.\<close>

definition progress_indicator_base_new ::
  "TPIE_OS_OFFSET \<Rightarrow> TPIE_OS_OFFSET \<Rightarrow> TPIE_OS_OFFSET \<Rightarrow> ticks \<Rightarrow>
   progress_error + progress_indicator_base" where
  "progress_indicator_base_new minRange maxRange stepValue now =
     (let mn = std_min minRange maxRange;
          mx = std_max minRange maxRange
      in case ofs_sub mx mn of
           Inl e \<Rightarrow> Inl e
         | Inr d \<Rightarrow>
             Inr \<lparr>m_minRange = mn, m_maxRange = mx,
                  m_stepValue = std_max (std_min stepValue d) 1,
                  m_current = 0, m_percentageChecker = 0, m_percentageValue = 0,
                  m_percentageUnit = 0, m_lastUpdate = now, m_predictor = 0\<rparr>)"

definition progress_indicator_base_copy :: "progress_indicator_base \<Rightarrow> progress_indicator_base" where
  "progress_indicator_base_copy other =
     \<lparr>m_minRange = m_minRange other, m_maxRange = m_maxRange other,
      m_stepValue = m_stepValue other, m_current = m_current other,
      m_percentageChecker = m_percentageChecker other,
      m_percentageValue = m_percentageValue other,
      m_percentageUnit = m_percentageUnit other,
      m_lastUpdate = m_lastUpdate other, m_predictor = m_predictor other\<rparr>"

definition assign :: "progress_indicator_base \<Rightarrow> progress_indicator_base \<Rightarrow> progress_indicator_base" where
  "assign this other =
     this\<lparr>m_percentageChecker := m_percentageChecker other,
          m_percentageValue := m_percentageValue other,
          m_percentageUnit := m_percentageUnit other,
          m_maxRange := m_maxRange other,
          m_minRange := m_minRange other,
          m_stepValue := m_stepValue other,
          m_current := m_current other,
          m_lastUpdate := m_lastUpdate other\<rparr>"

definition reset :: "progress_indicator_base \<Rightarrow> progress_indicator_base" where
  "reset p = p\<lparr>m_current := m_minRange p\<rparr>"

definition set_min_range :: "progress_indicator_base \<Rightarrow> TPIE_OS_OFFSET \<Rightarrow> progress_indicator_base" where
  "set_min_range p minRange = reset (p\<lparr>m_minRange := minRange\<rparr>)"

definition set_max_range :: "progress_indicator_base \<Rightarrow> TPIE_OS_OFFSET \<Rightarrow> progress_indicator_base" where
  "set_max_range p maxRange = reset (p\<lparr>m_maxRange := maxRange\<rparr>)"

definition set_step_value :: "progress_indicator_base \<Rightarrow> TPIE_OS_OFFSET \<Rightarrow> progress_indicator_base" where
  "set_step_value p stepValue = p\<lparr>m_stepValue := stepValue\<rparr>"

definition set_range ::
  "progress_indicator_base \<Rightarrow> TPIE_OS_OFFSET \<Rightarrow> TPIE_OS_OFFSET \<Rightarrow> TPIE_OS_OFFSET \<Rightarrow>
   progress_error + progress_indicator_base" where
  "set_range p minRange maxRange stepValue =
     (let p1 = set_min_range p (std_min minRange maxRange);
          p2 = set_max_range p1 (std_max minRange maxRange)
      in case ofs_sub (m_maxRange p2) (m_minRange p2) of
           Inl e \<Rightarrow> Inl e
         | Inr d \<Rightarrow>
             Inr (reset ((set_step_value p2 (std_max (std_min stepValue d) 1))
                    \<lparr>m_percentageValue := 0, m_percentageChecker := 0, m_percentageUnit := 0\<rparr>)))"

definition set_percentage_range ::
  "progress_indicator_base \<Rightarrow> TPIE_OS_OFFSET \<Rightarrow> TPIE_OS_OFFSET \<Rightarrow> 16 word \<Rightarrow>
   progress_error + progress_indicator_base" where
  "set_percentage_range p minRange maxRange percentageUnit =
     (let localMin = std_min minRange maxRange;
          localMax = std_max minRange maxRange;
          p1 = set_step_value p 1;
          p2 = p1\<lparr>m_percentageUnit := (if percentageUnit < 1 then 1 else percentageUnit)\<rparr>
      in case ofs_sub localMax localMin of
           Inl e \<Rightarrow> Inl e
         | Inr d \<Rightarrow>
            (case ofs_div d (ucast (m_percentageUnit p2)) of
               Inl e \<Rightarrow> Inl e
             | Inr v \<Rightarrow>
                 let p3 = p2\<lparr>m_percentageValue := v\<rparr>;
                     p4 = (if 0 <s m_percentageValue p3
                           then set_max_range (set_min_range p3 0) (ucast (m_percentageUnit p3))
                           else (set_max_range (set_min_range p3 localMin) localMax)
                                  \<lparr>m_percentageValue := 1, m_percentageUnit := ucast d\<rparr>)
                 in Inr (reset (p4\<lparr>m_percentageChecker := 0\<rparr>))))"

definition step ::
  "int \<Rightarrow> progress_indicator_base \<Rightarrow> TPIE_OS_OFFSET \<Rightarrow> ticks \<Rightarrow>
   progress_error + progress_indicator_base" where
  "step threshold p n currentTicks =
     (case ofs_add (m_current p) n of
        Inl e \<Rightarrow> Inl e
      | Inr c \<Rightarrow>
          let p1 = p\<lparr>m_current := c\<rparr>
          in Inr (if elapsed currentTicks (m_lastUpdate p1) > threshold
                  then p1\<lparr>m_lastUpdate := currentTicks\<rparr> else p1))"

definition step_default ::
  "int \<Rightarrow> progress_indicator_base \<Rightarrow> ticks \<Rightarrow> progress_error + progress_indicator_base" where
  "step_default threshold p currentTicks = step threshold p (m_stepValue p) currentTicks"

definition step_percentage ::
  "int \<Rightarrow> progress_indicator_base \<Rightarrow> ticks \<Rightarrow> progress_error + progress_indicator_base" where
  "step_percentage threshold p currentTicks =
     (case ofs_add (m_percentageChecker p) 1 of
        Inl e \<Rightarrow> Inl e
      | Inr c1 \<Rightarrow>
         (case ofs_rem c1 (m_percentageValue p) of
            Inl e \<Rightarrow> Inl e
          | Inr c2 \<Rightarrow>
              let p1 = p\<lparr>m_percentageChecker := c2\<rparr>
              in if m_percentageChecker p1 = 0 \<and> m_current p1 <s m_maxRange p1
                 then step_default threshold p1 currentTicks else Inr p1))"

definition init ::
  "progress_indicator_base \<Rightarrow> TPIE_OS_OFFSET \<Rightarrow> TPIE_OS_OFFSET \<Rightarrow> ticks \<Rightarrow>
   progress_error + progress_indicator_base" where
  "init p range0 stepValue now =
     (case (if range0 \<noteq> 0 then set_range p 0 range0 stepValue else Inr p) of
        Inl e \<Rightarrow> Inl e
      | Inr p1 \<Rightarrow> Inr (p1\<lparr>m_current := m_minRange p1, m_lastUpdate := now\<rparr>))"

definition get_current :: "progress_indicator_base \<Rightarrow> TPIE_OS_OFFSET" where
  "get_current p = m_current p"

text \<open>
  A sequence of updates \<open>step(n)\<close>, \<open>step()\<close> and \<open>step_percentage()\<close>, each with the
  clock reading it sees; \<open>run_updates\<close> returns the state after each update.
\<close>

datatype update = Step TPIE_OS_OFFSET | StepDefault | StepPercentage

fun apply_update ::
  "int \<Rightarrow> progress_indicator_base \<Rightarrow> update \<times> ticks \<Rightarrow> progress_error + progress_indicator_base" where
  "apply_update threshold p (Step n, t) = step threshold p n t"
| "apply_update threshold p (StepDefault, t) = step_default threshold p t"
| "apply_update threshold p (StepPercentage, t) = step_percentage threshold p t"

fun run_updates ::
  "int \<Rightarrow> progress_indicator_base \<Rightarrow> (update \<times> ticks) list \<Rightarrow>
   progress_error + progress_indicator_base list" where
  "run_updates threshold p [] = Inr []"
| "run_updates threshold p (x # xs) =
     (case apply_update threshold p x of
        Inl e \<Rightarrow> Inl e
      | Inr p1 \<Rightarrow>
         (case run_updates threshold p1 xs of Inl e \<Rightarrow> Inl e | Inr ps \<Rightarrow> Inr (p1 # ps)))"

fun forward_update :: "update \<Rightarrow> bool" where
  "forward_update (Step n) = (0 <=s n)"
| "forward_update StepDefault = True"
| "forward_update StepPercentage = True"

text \<open>The state after \<open>set_percentage_range(0, 400, 100)\<close> on a fresh indicator.\<close>

definition demo_progress :: progress_indicator_base where
  "demo_progress =
     \<lparr>m_minRange = 0, m_maxRange = 100, m_stepValue = 1, m_current = 0,
      m_percentageChecker = 0, m_percentageValue = 4, m_percentageUnit = 100,
      m_lastUpdate = 0, m_predictor = 0\<rparr>"

section \<open>Device descriptions\<close>

text \<open>
  The class \<open>AMI_device\<close>: the counter \<open>argc\<close>, an \<open>unsigned int\<close> of 32 bits whose
  increment wraps around, and the pointer \<open>argv\<close>, which is null, or points to an array
  of strings, or is neither (not initialised, or deleted). A C string is the list of its
  characters before the terminating NUL, which the end of the list stands for. The
  environment is a map from names to values, \<open>getenv\<close> its lookup. \<open>tp_assert\<close> is an
  error branch of its own, and so is every access through a pointer that does not point
  to an array long enough. Positions in the path and the index \<open>ii\<close>, which stays below
  \<open>argc\<close>, are natural numbers.
\<close>

datatype AMI_err = AMI_ERROR_NO_ERROR | AMI_ERROR_ENV_UNDEFINED

datatype device_fault = PathEndedEarly | NullArgv | InvalidArgv

datatype argv_pointer = Null | Array "string list" | Invalid

record AMI_device =
  argc :: "32 word"
  argv :: argv_pointer

text \<open>
  \<open>AMI_device(void)\<close> initialises neither field: the counter holds whatever value the
  memory held and the pointer is not valid. \<open>AMI_device(count, strings)\<close> copies
  \<open>count\<close> strings, or sets the pointer to null when \<open>count\<close> is 0 (\<open>count\<close> is
  written \<open>cnt\<close>).
\<close>

definition AMI_device_void :: "32 word \<Rightarrow> AMI_device" where
  "AMI_device_void indeterminate = \<lparr>argc = indeterminate, argv = Invalid\<rparr>"

definition AMI_device_new :: "32 word \<Rightarrow> string list \<Rightarrow> device_fault + AMI_device" where
  "AMI_device_new cnt strings =
     (if cnt \<noteq> 0 then
        (if unat cnt \<le> length strings
         then Inr \<lparr>argc = cnt, argv = Array (take (unat cnt) strings)\<rparr>
         else Inl InvalidArgv)
      else Inr \<lparr>argc = cnt, argv = Null\<rparr>)"

text \<open>
  \<open>dispose_contents\<close>: with a counter other than 0, the loop \<open>while (argc--)\<close> deletes
  \<open>argv[argc]\<close> for every index below the counter, which needs an array of that many
  strings, and leaves the counter at \<open>2^32 - 1\<close>; then the array itself is deleted.
\<close>

definition dispose_contents :: "AMI_device \<Rightarrow> device_fault + AMI_device" where
  "dispose_contents dev =
     (if argc dev \<noteq> 0 then
        (case argv dev of
           Null \<Rightarrow> Inl NullArgv
         | Invalid \<Rightarrow> Inl InvalidArgv
         | Array av \<Rightarrow>
             if unat (argc dev) \<le> length av
             then Inr (dev\<lparr>argc := - 1, argv := Invalid\<rparr>)
             else Inl InvalidArgv)
      else Inr dev)"

text \<open>The loop \<open>for (argc = 1, s = path; *s; s++) if (*s == ':') argc++;\<close>.\<close>

fun count_components :: "string \<Rightarrow> 32 word \<Rightarrow> 32 word" where
  "count_components [] n = n"
| "count_components (c # cs) n = count_components cs (if c = CHR '':'' then n + 1 else n)"

text \<open>The loop \<open>while (*s && (*s != ':')) s++;\<close> on the position \<open>s\<close> in the path.\<close>

function skip_component :: "string \<Rightarrow> nat \<Rightarrow> nat" where
  "skip_component path s =
     (if s < length path \<and> path ! s \<noteq> CHR '':'' then skip_component path (s + 1) else s)"
  by pat_completeness auto
termination
  by (relation "measure (\<lambda>(path, s). length path - s)") auto

declare skip_component.simps [simp del]

text \<open>
  The loop \<open>for (ii = 0, s = t = path; ii < argc; ii++, t = ++s)\<close> that copies the
  components; \<open>t\<close> is where the current component starts.
\<close>

function copy_components ::
  "string \<Rightarrow> nat \<Rightarrow> nat \<Rightarrow> nat \<Rightarrow> string list \<Rightarrow> device_fault + string list" where
  "copy_components path n ii t av =
     (if ii < n then
        let s = skip_component path t
        in if (s < length path \<and> path ! s = CHR '':'') \<or> ii = n - 1
           then copy_components path n (ii + 1) (s + 1) (av[ii := take (s - t) (drop t path)])
           else Inl PathEndedEarly
      else Inr av)"
  by pat_completeness auto
termination
  by (relation "measure (\<lambda>(path, n, ii, t, av). n - ii)") auto

declare copy_components.simps [simp del]

definition set_to_path :: "AMI_device \<Rightarrow> string \<Rightarrow> device_fault + (AMI_err \<times> AMI_device)" where
  "set_to_path dev path =
     (case dispose_contents dev of
        Inl f \<Rightarrow> Inl f
      | Inr dev1 \<Rightarrow>
          let dev2 = dev1\<lparr>argc := count_components path 1\<rparr>
          in case copy_components path (unat (argc dev2)) 0 0 (replicate (unat (argc dev2)) []) of
               Inl f \<Rightarrow> Inl f
             | Inr av \<Rightarrow> Inr (AMI_ERROR_NO_ERROR, dev2\<lparr>argv := Array av\<rparr>))"

definition read_environment ::
  "(string \<rightharpoonup> string) \<Rightarrow> AMI_device \<Rightarrow> string \<Rightarrow> device_fault + (AMI_err \<times> AMI_device)" where
  "read_environment env dev name =
     (case env name of
        None \<Rightarrow> Inr (AMI_ERROR_ENV_UNDEFINED, dev)
      | Some env_value \<Rightarrow> set_to_path dev env_value)"

definition arity :: "AMI_device \<Rightarrow> 32 word" where
  "arity dev = argc dev"

text \<open>\<open>operator[]\<close>; an index outside the array is \<open>None\<close>.\<close>

definition device_index :: "AMI_device \<Rightarrow> nat \<Rightarrow> string option" where
  "device_index dev i =
     (case argv dev of
        Array av \<Rightarrow> if i < length av then Some (av ! i) else None
      | _ \<Rightarrow> None)"

text \<open>
  A device whose fields agree: the counter is 0, or the pointer is to an array of as many
  strings as the counter says. \<open>AMI_device(count, strings)\<close> and \<open>set_to_path\<close> leave
  such a device.
\<close>

definition valid_device :: "AMI_device \<Rightarrow> bool" where
  "valid_device dev \<longleftrightarrow>
     argc dev = 0 \<or> (case argv dev of Array av \<Rightarrow> unat (argc dev) = length av | _ \<Rightarrow> False)"

text \<open>
  A colon-separated list of paths, as the spec has it, and the components of a string
  between its colons.
\<close>

fun join_colon :: "string list \<Rightarrow> string" where
  "join_colon [] = []"
| "join_colon [c] = c"
| "join_colon (c # cs) = c @ CHR '':'' # join_colon cs"

fun split_colon :: "string \<Rightarrow> string list" where
  "split_colon [] = [[]]"
| "split_colon (c # cs) =
     (if c = CHR '':'' then [] # split_colon cs
      else (c # hd (split_colon cs)) # tl (split_colon cs))"

text \<open>The number of values of an \<open>unsigned int\<close>.\<close>

definition unsigned_int_range :: nat where
  "unsigned_int_range = 2 ^ 32"

section \<open>Parallel sort\<close>

text \<open>
  The class \<open>parallel_sort_impl\<close>. An iterator range \<open>[a, b)\<close> is the list of its
  elements and an iterator into it is an index, \<open>a\<close> being index 0. The comparator
  \<open>comp\<close> is written \<open>cmp\<close> and the iterator \<open>last\<close> is written \<open>lst\<close> (both names are
  constants of HOL); \<open>partition\<close> is \<open>partition_pivot\<close> for the same reason. A scan that
  leaves the range, and a swap on an empty range, are the fault \<open>OutOfRange\<close>.

  \<open>std::sort\<close> is not code of the repository: it is the parameter \<open>std_sort\<close>, already
  applied to the comparator. The job system is not modelled: a \<open>qsort_job\<close> hands the
  left part \<open>[a, pivot)\<close> to a child job and goes on with the right part itself; the
  jobs work on disjoint parts of the range and the driver waits for all of them, so the
  contents of the range when \<open>parallel_sort\<close> returns are those of the recursion below.
  The progress accounting changes no element and is left out.
\<close>

datatype sort_fault = OutOfRange

definition iter_swap :: "'a list \<Rightarrow> nat \<Rightarrow> nat \<Rightarrow> 'a list" where
  "iter_swap xs i j = xs[i := xs ! j, j := xs ! i]"

definition median :: "('a \<Rightarrow> 'a \<Rightarrow> bool) \<Rightarrow> 'a list \<Rightarrow> nat \<Rightarrow> nat \<Rightarrow> nat \<Rightarrow> nat" where
  "median cmp xs a b c =
     (if cmp (xs ! a) (xs ! b) then
        (if cmp (xs ! b) (xs ! c) then b
         else if cmp (xs ! a) (xs ! c) then c
         else a)
      else
        (if cmp (xs ! a) (xs ! c) then a
         else if cmp (xs ! b) (xs ! c) then c
         else b))"

definition pick_pivot :: "('a \<Rightarrow> 'a \<Rightarrow> bool) \<Rightarrow> 'a list \<Rightarrow> nat" where
  "pick_pivot cmp xs =
     (if xs = [] then 0
      else
        let step = length xs div 8
        in median cmp xs
             (median cmp xs 0 step (step * 2))
             (median cmp xs (step * 3) (step * 4) (step * 5))
             (median cmp xs (step * 6) (step * 7) (length xs - 1)))"

text \<open>
  The loops of \<open>unguarded_partition\<close>, whose pivot is the first element of the range.
  \<open>scan_last\<close> is \<open>do --last; while (comp(*pivot, *last));\<close> and \<open>scan_first\<close> is
  \<open>do { if (first == last) break; ++first; } while (comp(*first, *pivot));\<close>.
\<close>

fun scan_last :: "('a \<Rightarrow> 'a \<Rightarrow> bool) \<Rightarrow> 'a list \<Rightarrow> nat \<Rightarrow> sort_fault + nat" where
  "scan_last cmp xs 0 = Inl OutOfRange"
| "scan_last cmp xs (Suc l) =
     (if cmp (xs ! 0) (xs ! l) then scan_last cmp xs l else Inr l)"

function scan_first ::
  "('a \<Rightarrow> 'a \<Rightarrow> bool) \<Rightarrow> 'a list \<Rightarrow> nat \<Rightarrow> nat \<Rightarrow> sort_fault + nat" where
  "scan_first cmp xs first lst =
     (if first = lst then Inr first
      else if length xs \<le> first + 1 then Inl OutOfRange
      else if cmp (xs ! (first + 1)) (xs ! 0) then scan_first cmp xs (first + 1) lst
      else Inr (first + 1))"
  by pat_completeness auto

termination
  by (relation "measure (\<lambda>(cmp, xs, first, lst). length xs - first)") auto

declare scan_first.simps [simp del]

lemma scan_last_less: "scan_last cmp xs l = Inr l' \<Longrightarrow> l' < l"
  by (induction l) (auto split: if_splits)

text \<open>The loop \<open>while (true)\<close>, left when the two scans meet.\<close>

function partition_loop ::
  "('a \<Rightarrow> 'a \<Rightarrow> bool) \<Rightarrow> 'a list \<Rightarrow> nat \<Rightarrow> nat \<Rightarrow> sort_fault + ('a list \<times> nat)" where
  "partition_loop cmp xs first lst =
     (case scan_last cmp xs lst of
        Inl e \<Rightarrow> Inl e
      | Inr lst1 \<Rightarrow>
         (case scan_first cmp xs first lst1 of
            Inl e \<Rightarrow> Inl e
          | Inr first1 \<Rightarrow>
              if first1 = lst1 then Inr (xs, lst1)
              else partition_loop cmp (iter_swap xs first1 lst1) first1 lst1))"
  by pat_completeness auto

termination
  by (relation "measure (\<lambda>(cmp, xs, first, lst). lst)") (auto dest: scan_last_less)

declare partition_loop.simps [simp del]

definition unguarded_partition ::
  "('a \<Rightarrow> 'a \<Rightarrow> bool) \<Rightarrow> 'a list \<Rightarrow> sort_fault + ('a list \<times> nat)" where
  "unguarded_partition cmp xs =
     (case partition_loop cmp xs 0 (length xs) of
        Inl e \<Rightarrow> Inl e
      | Inr (ys, lst) \<Rightarrow> Inr (iter_swap ys lst 0, lst))"

definition partition_pivot ::
  "('a \<Rightarrow> 'a \<Rightarrow> bool) \<Rightarrow> 'a list \<Rightarrow> sort_fault + ('a list \<times> nat)" where
  "partition_pivot cmp xs =
     (if xs = [] then Inl OutOfRange
      else unguarded_partition cmp (iter_swap xs (pick_pivot cmp xs) 0))"

lemma length_iter_swap [simp]: "length (iter_swap xs i j) = length xs"
  by (simp add: iter_swap_def)

lemma partition_loop_bounds:
  "partition_loop cmp xs first lst = Inr (ys, l) \<Longrightarrow> l < lst \<and> length ys = length xs"
proof (induction cmp xs first lst rule: partition_loop.induct)
  case (1 cmp xs first lst)
  from "1.prems" obtain lst1 first1 where
    s: "scan_last cmp xs lst = Inr lst1" "scan_first cmp xs first lst1 = Inr first1"
    by (subst (asm) partition_loop.simps) (auto split: sum.splits)
  have lt: "lst1 < lst"
    using s(1) by (rule scan_last_less)
  show ?case
  proof (cases "first1 = lst1")
    case True
    then show ?thesis
      using "1.prems" s lt by (subst (asm) partition_loop.simps) simp
  next
    case False
    then have "partition_loop cmp (iter_swap xs first1 lst1) first1 lst1 = Inr (ys, l)"
      using "1.prems" s by (subst (asm) partition_loop.simps) simp
    then have "l < lst1 \<and> length ys = length (iter_swap xs first1 lst1)"
      using "1.IH" [OF s(1) s(2) False] by simp
    then show ?thesis
      using lt by simp
  qed
qed

lemma partition_pivot_bounds:
  "partition_pivot cmp xs = Inr (ys, p) \<Longrightarrow> p < length xs \<and> length ys = length xs"
  using partition_loop_bounds [of cmp "iter_swap xs (pick_pivot cmp xs) 0" 0 "length xs"]
  by (auto simp: partition_pivot_def unguarded_partition_def split: if_splits sum.splits)

text \<open>
  \<open>qsort_job::operator()\<close>: the loop \<open>while (b - a >= min_size)\<close>, with the child job of
  the left part as the first recursive call and the next round of the loop as the second.
\<close>

function qsort_job ::
  "nat \<Rightarrow> ('a \<Rightarrow> 'a \<Rightarrow> bool) \<Rightarrow> ('a list \<Rightarrow> 'a list) \<Rightarrow> 'a list \<Rightarrow> sort_fault + 'a list" where
  "qsort_job min_size cmp std_sort xs =
     (if min_size \<le> length xs then
        (case partition_pivot cmp xs of
           Inl e \<Rightarrow> Inl e
         | Inr (ys, pivot) \<Rightarrow>
            (case qsort_job min_size cmp std_sort (take pivot ys) of
               Inl e \<Rightarrow> Inl e
             | Inr left \<Rightarrow>
                (case qsort_job min_size cmp std_sort (drop (pivot + 1) ys) of
                   Inl e \<Rightarrow> Inl e
                 | Inr right \<Rightarrow> Inr (left @ ys ! pivot # right))))
      else Inr (std_sort xs))"
  by pat_completeness auto

termination
  by (relation "measure (\<lambda>(min_size, cmp, std_sort, xs). length xs)")
    (auto dest: partition_pivot_bounds)

declare qsort_job.simps [simp del]

text \<open>\<open>parallel_sort_impl::operator()\<close>, which \<open>parallel_sort\<close> calls.\<close>

definition parallel_sort ::
  "nat \<Rightarrow> ('a \<Rightarrow> 'a \<Rightarrow> bool) \<Rightarrow> ('a list \<Rightarrow> 'a list) \<Rightarrow> 'a list \<Rightarrow> sort_fault + 'a list" where
  "parallel_sort min_size cmp std_sort xs =
     (if length xs < min_size then Inr (std_sort xs)
      else qsort_job min_size cmp std_sort xs)"

text \<open>
  A strict weak ordering: irreflexive, transitive, and with a transitive incomparability.
\<close>

definition strict_weak_ordering :: "('a \<Rightarrow> 'a \<Rightarrow> bool) \<Rightarrow> bool" where
  "strict_weak_ordering cmp \<longleftrightarrow>
     (\<forall>x. \<not> cmp x x) \<and>
     (\<forall>x y z. cmp x y \<and> cmp y z \<longrightarrow> cmp x z) \<and>
     (\<forall>x y z. \<not> cmp x y \<and> \<not> cmp y x \<and> \<not> cmp y z \<and> \<not> cmp z y \<longrightarrow> \<not> cmp x z \<and> \<not> cmp z x)"

text \<open>What the C++ standard asks of \<open>std::sort\<close> with the comparator \<open>cmp\<close>.\<close>

definition sorts :: "('a \<Rightarrow> 'a \<Rightarrow> bool) \<Rightarrow> ('a list \<Rightarrow> 'a list) \<Rightarrow> bool" where
  "sorts cmp std_sort \<longleftrightarrow>
     (\<forall>zs. mset (std_sort zs) = mset zs \<and> sorted_wrt (\<lambda>x y. \<not> cmp y x) (std_sort zs))"

text \<open>
  The median of three elements for a comparator: one of the other two is not above it
  and the other is not below it. \<open>is_median\<close> says so of the index \<open>m\<close> among the
  indices \<open>a\<close>, \<open>b\<close>, \<open>c\<close>.
\<close>

definition between :: "('a \<Rightarrow> 'a \<Rightarrow> bool) \<Rightarrow> 'a \<Rightarrow> 'a \<Rightarrow> 'a \<Rightarrow> bool" where
  "between cmp lo m hi \<longleftrightarrow> \<not> cmp m lo \<and> \<not> cmp hi m"

definition is_median :: "('a \<Rightarrow> 'a \<Rightarrow> bool) \<Rightarrow> 'a list \<Rightarrow> nat \<Rightarrow> nat \<Rightarrow> nat \<Rightarrow> nat \<Rightarrow> bool" where
  "is_median cmp xs m a b c \<longleftrightarrow>
     (m = a \<and> (between cmp (xs ! b) (xs ! a) (xs ! c) \<or> between cmp (xs ! c) (xs ! a) (xs ! b))) \<or>
     (m = b \<and> (between cmp (xs ! a) (xs ! b) (xs ! c) \<or> between cmp (xs ! c) (xs ! b) (xs ! a))) \<or>
     (m = c \<and> (between cmp (xs ! a) (xs ! c) (xs ! b) \<or> between cmp (xs ! b) (xs ! c) (xs ! a)))"

text \<open>The range of the third end-to-end scenario of the spec.\<close>

definition demo_range :: "nat list" where
  "demo_range = [5, 1, 4, 1, 5, 9, 2, 6, 5, 3, 5, 8, 9, 7, 9]"

chapter \<open>Properties\<close>

section \<open>Properties of the cache manager\<close>

subsection \<open>The window on the array\<close>

lemma length_bv_view:
  "base + n \<le> length p \<Longrightarrow> length (bv_view p base n) = n"
  by (simp add: bv_view_def)

lemma length_bv_store:
  "base + length s \<le> length p \<Longrightarrow> length (bv_store p base s) = length p"
  by (simp add: bv_store_def)

lemma bv_view_store_same:
  "base + length s \<le> length p \<Longrightarrow> bv_view (bv_store p base s) base (length s) = s"
  by (simp add: bv_view_def bv_store_def)

lemma bv_view_store_below:
  assumes "b' + n \<le> b" "b + length s \<le> length p"
  shows "bv_view (bv_store p b s) b' n = bv_view p b' n"
proof -
  have "drop b' (take b p) = take (b - b') (drop b' p)"
    by (simp add: drop_take)
  moreover have "min n (b - b') = n"
    using assms by simp
  ultimately show ?thesis
    using assms by (simp add: bv_view_def bv_store_def)
qed

lemma bv_view_store_above:
  assumes "b + length s \<le> b'" "b + length s \<le> length p"
  shows "bv_view (bv_store p b s) b' n = bv_view p b' n"
proof -
  have "b' - b - length s + (b + length s) = b'"
    using assms by simp
  then show ?thesis
    using assms by (simp add: bv_view_def bv_store_def)
qed

subsection \<open>The search loop and the line primitives\<close>

lemma find_key_takeWhile:
  "i \<le> length s \<Longrightarrow> find_key k s i = i + length (takeWhile (\<lambda>e. fst e \<noteq> k) (drop i s))"
proof (induction k s i rule: find_key.induct)
  case (1 k s i)
  show ?case
  proof (cases "i < length s")
    case True
    then have d: "drop i s = s ! i # drop (Suc i) s"
      by (simp add: Cons_nth_drop_Suc)
    show ?thesis
      using True 1 by (subst find_key.simps) (simp add: d)
  next
    case False
    then show ?thesis using 1 by (subst find_key.simps) simp
  qed
qed

lemma find_key_bounds:
  assumes "i \<le> length s"
  shows "i \<le> find_key k s i \<and> find_key k s i \<le> length s"
proof -
  have "length (takeWhile (\<lambda>e. fst e \<noteq> k) (drop i s)) \<le> length (drop i s)"
    by (rule length_takeWhile_le)
  then show ?thesis
    using assms by (simp add: find_key_takeWhile)
qed

lemma find_key_find:
  "find (\<lambda>e. fst e = k) s =
     (if find_key k s 0 < length s then Some (s ! find_key k s 0) else None)"
proof -
  have "find (\<lambda>e. fst e = k) xs =
        (if length (takeWhile (\<lambda>e. fst e \<noteq> k) xs) < length xs
         then Some (xs ! length (takeWhile (\<lambda>e. fst e \<noteq> k) xs)) else None)" for xs :: "'a item_type list"
    by (induction xs) auto
  then show ?thesis
    by (simp add: find_key_takeWhile)
qed

lemma find_key_hit:
  assumes "find_key k s 0 < length s"
  shows "fst (s ! find_key k s 0) = k"
proof -
  have "find (\<lambda>e. fst e = k) s = Some (s ! find_key k s 0)"
    using assms by (simp add: find_key_find)
  then show ?thesis
    by (auto simp: find_Some_iff)
qed

lemma find_key_miss_iff:
  "find_key k s 0 = length s \<longleftrightarrow> (\<forall>e \<in> set s. fst e \<noteq> k)"
proof -
  have "length (takeWhile P s) = length s \<longleftrightarrow> (\<forall>e \<in> set s. P e)" for P :: "'a item_type \<Rightarrow> bool"
    by (induction s) auto
  then show ?thesis
    by (simp add: find_key_takeWhile)
qed

lemma find_key_Cons_hit: "find_key k ((k, v) # s) 0 = 0"
  by (subst find_key.simps) simp

lemma mark_erase:
  assumes "i < length s"
  shows "mark_empty (bv_erase i s) (length s - 1) =
     take i s @ drop (Suc i) s @ [(0, snd (s ! (length s - 1)))]"
proof -
  define A where "A = take i s @ drop (Suc i) s"
  have len: "length A = length s - 1"
    using assms by (simp add: A_def)
  have e: "bv_erase i s = A @ [s ! (length s - 1)]"
    using assms by (simp add: bv_erase_def A_def)
  have "mark_empty (A @ [y]) (length A) = A @ [(0, snd y)]" for y :: "'a item_type"
    by (simp add: mark_empty_def)
  then have "mark_empty (bv_erase i s) (length s - 1) = A @ [(0, snd (s ! (length s - 1)))]"
    unfolding e len .
  then show ?thesis
    by (simp add: A_def)
qed

lemma mark_single:
  "length s = 1 \<Longrightarrow> mark_empty s 0 = take 0 s @ drop (Suc 0) s @ [(0, snd (s ! (length s - 1)))]"
  by (cases s) (simp_all add: mark_empty_def)

lemma insert_front:
  "0 < length s \<Longrightarrow> bv_insert t 0 s = t # take (length s - 1) s"
  by (simp add: bv_insert_def)

lemma update_single:
  "length s = 1 \<Longrightarrow> s[0 := t] = t # take (length s - 1) s"
  by (cases s) simp_all

subsection \<open>Lines of a well-formed cache\<close>

lemma wf_line_fits:
  assumes "wf_cache c" "j < sets c"
  shows "j * assoc c + assoc c \<le> length (pdata c)"
proof -
  have "Suc j * assoc c \<le> sets c * assoc c"
    using assms(2) by (intro mult_le_mono1) simp
  then show ?thesis
    using assms(1) by (simp add: wf_cache_def)
qed

lemma wf_positive:
  assumes "wf_cache c" "0 < capacity c"
  shows "0 < sets c" "0 < assoc c" "unat k mod sets c < sets c"
  using assms by (auto simp: wf_cache_def)

lemma length_cache_line:
  "wf_cache c \<Longrightarrow> j < sets c \<Longrightarrow> length (cache_line c j) = assoc c"
  using wf_line_fits [of c j] by (simp add: cache_line_def length_bv_view)

lemma cache_line_store_same:
  assumes "wf_cache c" "j < sets c" "length s = assoc c"
  shows "bv_view (bv_store (pdata c) (j * assoc c) s) (j * assoc c) (assoc c) = s"
  using bv_view_store_same [of "j * assoc c" s "pdata c"] wf_line_fits [OF assms(1,2)] assms(3)
  by simp

lemma cache_line_store_other:
  assumes "wf_cache c" "j < sets c" "length s = assoc c" "j' \<noteq> j"
  shows "bv_view (bv_store (pdata c) (j * assoc c) s) (j' * assoc c) (assoc c)
         = bv_view (pdata c) (j' * assoc c) (assoc c)"
proof (cases "j' < j")
  case True
  then have "Suc j' * assoc c \<le> j * assoc c"
    by (intro mult_le_mono1) simp
  then show ?thesis
    using wf_line_fits [OF assms(1,2)] assms(3)
    by (intro bv_view_store_below) simp_all
next
  case False
  with assms(4) have "Suc j * assoc c \<le> j' * assoc c"
    by (intro mult_le_mono1) simp
  then show ?thesis
    using wf_line_fits [OF assms(1,2)] assms(3)
    by (intro bv_view_store_above) simp_all
qed

lemma wf_cache_store:
  assumes "wf_cache c" "j < sets c" "length s = assoc c"
  shows "wf_cache (c\<lparr>writeout := w, pdata := bv_store (pdata c) (j * assoc c) s\<rparr>)"
  using assms wf_line_fits [OF assms(1,2)]
  by (auto simp: wf_cache_def length_bv_store)

subsection \<open>The operations on a well-formed cache, line by line\<close>

lemma cache_write_eq:
  assumes "wf_cache c" "0 < capacity c" "k \<noteq> 0"
  shows "cache_write c k v =
     Inr (True, c\<lparr>writeout := writeout c @
                     (if fst (cache_line c (unat k mod sets c) ! (assoc c - 1)) \<noteq> 0
                      then [snd (cache_line c (unat k mod sets c) ! (assoc c - 1))] else []),
                  pdata := bv_store (pdata c) (unat k mod sets c * assoc c)
                     ((k, v) # take (assoc c - 1) (cache_line c (unat k mod sets c)))\<rparr>)"
proof -
  let ?j = "unat k mod sets c"
  have len: "length (cache_line c ?j) = assoc c"
    using assms by (simp add: length_cache_line wf_positive)
  have pos: "0 < assoc c"
    using assms by (simp add: wf_positive)
  have ins: "bv_insert (k, v) 0 (cache_line c ?j) = (k, v) # take (assoc c - 1) (cache_line c ?j)"
    using pos len insert_front [of "cache_line c ?j" "(k, v)"] by simp
  have upd: "\<not> 1 < assoc c \<Longrightarrow>
             (cache_line c ?j)[0 := (k, v)] = (k, v) # take (assoc c - 1) (cache_line c ?j)"
    using pos len update_single [of "cache_line c ?j" "(k, v)"] by simp
  show ?thesis
  proof (cases "1 < assoc c")
    case True
    then show ?thesis
      using assms(2,3)
      by (simp add: cache_write_def Let_def line_base_def cache_line_def [symmetric] ins)
  next
    case False
    then show ?thesis
      using assms(2,3) upd
      by (simp add: cache_write_def Let_def line_base_def cache_line_def [symmetric])
  qed
qed

lemma cache_read_eq:
  assumes "wf_cache c" "0 < capacity c" "k \<noteq> 0"
  shows "cache_read c k =
     (if find_key k (cache_line c (unat k mod sets c)) 0 = assoc c then Inr (None, c)
      else Inr (Some (snd (cache_line c (unat k mod sets c) ! find_key k (cache_line c (unat k mod sets c)) 0)),
                c\<lparr>pdata := bv_store (pdata c) (unat k mod sets c * assoc c)
                   (take (find_key k (cache_line c (unat k mod sets c)) 0) (cache_line c (unat k mod sets c)) @
                    drop (Suc (find_key k (cache_line c (unat k mod sets c)) 0)) (cache_line c (unat k mod sets c)) @
                    [(0, snd (cache_line c (unat k mod sets c) ! (assoc c - 1)))])\<rparr>))"
proof -
  let ?j = "unat k mod sets c"
  let ?s = "cache_line c ?j"
  let ?i = "find_key k ?s 0"
  have len: "length ?s = assoc c"
    using assms by (simp add: length_cache_line wf_positive)
  have pos: "0 < assoc c"
    using assms by (simp add: wf_positive)
  have le: "?i \<le> assoc c"
    using find_key_bounds [of 0 ?s k] len by simp
  have rm: "?i \<noteq> assoc c \<Longrightarrow>
        mark_empty (if 1 < assoc c then bv_erase ?i ?s else ?s) (assoc c - 1)
        = take ?i ?s @ drop (Suc ?i) ?s @ [(0, snd (?s ! (assoc c - 1)))]"
  proof -
    assume "?i \<noteq> assoc c"
    with le have lt: "?i < length ?s" using len by simp
    show ?thesis
    proof (cases "1 < assoc c")
      case True
      then show ?thesis using mark_erase [OF lt] len by simp
    next
      case False
      with pos have one: "assoc c = 1" by simp
      with lt len have "?i = 0" by simp
      then show ?thesis using mark_single [of ?s] one len by simp
    qed
  qed
  show ?thesis
  proof (cases "?i = assoc c")
    case True
    then show ?thesis
      using assms(2,3)
      by (simp add: cache_read_def Let_def line_base_def cache_line_def [symmetric])
  next
    case False
    have "cache_read c k = Inr (Some (snd (?s ! ?i)),
            c\<lparr>pdata := bv_store (pdata c) (?j * assoc c)
               (mark_empty (if 1 < assoc c then bv_erase ?i ?s else ?s) (assoc c - 1))\<rparr>)"
      using assms(2,3) False
      by (simp add: cache_read_def Let_def line_base_def cache_line_def [symmetric])
    then show ?thesis
      using False rm by simp
  qed
qed

lemma cache_erase_eq:
  assumes "wf_cache c" "0 < capacity c" "k \<noteq> 0"
  shows "cache_erase c k =
     (if find_key k (cache_line c (unat k mod sets c)) 0 = assoc c then Inr (False, c)
      else Inr (True,
                c\<lparr>writeout := writeout c @
                     [snd (cache_line c (unat k mod sets c) ! find_key k (cache_line c (unat k mod sets c)) 0)],
                  pdata := bv_store (pdata c) (unat k mod sets c * assoc c)
                   (take (find_key k (cache_line c (unat k mod sets c)) 0) (cache_line c (unat k mod sets c)) @
                    drop (Suc (find_key k (cache_line c (unat k mod sets c)) 0)) (cache_line c (unat k mod sets c)) @
                    [(0, snd (cache_line c (unat k mod sets c) ! (assoc c - 1)))])\<rparr>))"
proof -
  let ?j = "unat k mod sets c"
  let ?s = "cache_line c ?j"
  let ?i = "find_key k ?s 0"
  have len: "length ?s = assoc c"
    using assms by (simp add: length_cache_line wf_positive)
  have le: "?i \<le> assoc c"
    using find_key_bounds [of 0 ?s k] len by simp
  have rm: "?i \<noteq> assoc c \<Longrightarrow>
        mark_empty (bv_erase ?i ?s) (assoc c - 1)
        = take ?i ?s @ drop (Suc ?i) ?s @ [(0, snd (?s ! (assoc c - 1)))]"
    using le len mark_erase [of ?i ?s] by simp
  have "sets c \<noteq> 0"
    using assms wf_positive(1) [of c] by simp
  then show ?thesis
    using assms(3) rm len
    by (simp add: cache_erase_def Let_def line_base_def cache_line_def [symmetric])
qed

lemma stored_line:
  assumes "wf_cache c" "j < sets c" "length s = assoc c"
    and "pdata c' = bv_store (pdata c) (j * assoc c) s"
    and "assoc c' = assoc c" "sets c' = sets c" "capacity c' = capacity c"
  shows "wf_cache c'" and "cache_line c' j = s"
    and "j' \<noteq> j \<Longrightarrow> cache_line c' j' = cache_line c j'"
proof -
  show "wf_cache c'"
    using assms wf_line_fits [OF assms(1,2)] by (auto simp: wf_cache_def length_bv_store)
  show "cache_line c' j = s"
    using assms cache_line_store_same [OF assms(1-3)] by (simp add: cache_line_def)
  show "cache_line c' j' = cache_line c j'" if "j' \<noteq> j"
    using assms cache_line_store_other [OF assms(1-3) that] by (simp add: cache_line_def)
qed

lemma flush_loop_fields:
  "capacity (flush_loop c i) = capacity c \<and> assoc (flush_loop c i) = assoc c \<and>
   sets (flush_loop c i) = sets c"
proof (induction c i rule: flush_loop.induct)
  case (1 c i)
  then show ?case
    by (subst (1 2 3) flush_loop.simps) simp
qed

lemma flush_loop_effect:
  assumes "length (pdata c) = capacity c" "i \<le> capacity c"
  shows "writeout (flush_loop c i) =
           writeout c @ map snd (filter (\<lambda>e. fst e \<noteq> 0) (drop i (pdata c))) \<and>
         pdata (flush_loop c i) = take i (pdata c) @ map (\<lambda>e. (0, snd e)) (drop i (pdata c))"
  using assms
proof (induction c i rule: flush_loop.induct)
  case (1 c i)
  show ?case
  proof (cases "i < capacity c")
    case False
    with 1(3,4) show ?thesis
      by (subst (1 2) flush_loop.simps) simp
  next
    case True
    then have d: "drop i (pdata c) = pdata c ! i # drop (Suc i) (pdata c)"
      using 1(3) by (simp add: Cons_nth_drop_Suc)
    have t: "take (Suc i) (pdata c) = take i (pdata c) @ [pdata c ! i]"
      using True 1(3) by (simp add: take_Suc_conv_app_nth)
    show ?thesis
    proof (cases "fst (pdata c ! i) \<noteq> 0")
      case occupied: True
      let ?c = "c\<lparr>writeout := writeout c @ [snd (pdata c ! i)],
                   pdata := (pdata c)[i := (0, snd (pdata c ! i))]\<rparr>"
      have ih: "writeout (flush_loop ?c (i + 1)) =
                  writeout ?c @ map snd (filter (\<lambda>e. fst e \<noteq> 0) (drop (i + 1) (pdata ?c))) \<and>
                pdata (flush_loop ?c (i + 1)) =
                  take (i + 1) (pdata ?c) @ map (\<lambda>e. (0, snd e)) (drop (i + 1) (pdata ?c))"
        using True occupied 1(3) by (intro 1(1)) simp_all
      have tk: "take (Suc i) ((pdata c)[i := (0, snd (pdata c ! i))]) =
                  take i (pdata c) @ [(0, snd (pdata c ! i))]"
        using True 1(3) by (simp add: take_Suc_conv_app_nth)
      have "flush_loop c i = flush_loop ?c (i + 1)"
        using True occupied by (subst flush_loop.simps) simp
      then show ?thesis
        using ih occupied by (simp add: d tk)
    next
      case empty: False
      have ih: "writeout (flush_loop c (i + 1)) =
                  writeout c @ map snd (filter (\<lambda>e. fst e \<noteq> 0) (drop (i + 1) (pdata c))) \<and>
                pdata (flush_loop c (i + 1)) =
                  take (i + 1) (pdata c) @ map (\<lambda>e. (0, snd e)) (drop (i + 1) (pdata c))"
        using True empty 1(3) by (intro 1(2)) simp_all
      have "flush_loop c i = flush_loop c (i + 1)"
        using True empty by (subst flush_loop.simps) simp
      moreover have "pdata c ! i = (0, snd (pdata c ! i))"
        using empty by (simp add: prod_eq_iff)
      ultimately show ?thesis
        using ih empty by (simp add: d t)
    qed
  qed
qed

lemma cache_flush_effect:
  assumes "wf_cache c"
  shows "writeout (cache_flush c) = writeout c @ map snd (filter (\<lambda>e. fst e \<noteq> 0) (pdata c))"
    and "pdata (cache_flush c) = map (\<lambda>e. (0, snd e)) (pdata c)"
    and "wf_cache (cache_flush c)"
    and "capacity (cache_flush c) = capacity c"
proof -
  have len: "length (pdata c) = capacity c"
    using assms by (simp add: wf_cache_def)
  show "writeout (cache_flush c) = writeout c @ map snd (filter (\<lambda>e. fst e \<noteq> 0) (pdata c))"
    and p: "pdata (cache_flush c) = map (\<lambda>e. (0, snd e)) (pdata c)"
    using flush_loop_effect [OF len, of 0] by (simp_all add: cache_flush_def)
  show "wf_cache (cache_flush c)"
    using assms flush_loop_fields [of c 0] p by (auto simp: wf_cache_def cache_flush_def)
  show "capacity (cache_flush c) = capacity c"
    using flush_loop_fields [of c 0] by (simp add: cache_flush_def)
qed

lemma cache_write_props:
  assumes "wf_cache c" "0 < capacity c" "k \<noteq> 0"
  obtains c' where "cache_write c k v = Inr (True, c')" "wf_cache c'"
    "capacity c' = capacity c" "assoc c' = assoc c" "sets c' = sets c"
    "writeout c' = writeout c @
       (if fst (cache_line c (unat k mod sets c) ! (assoc c - 1)) \<noteq> 0
        then [snd (cache_line c (unat k mod sets c) ! (assoc c - 1))] else [])"
    "cache_line c' (unat k mod sets c) =
       (k, v) # take (assoc c - 1) (cache_line c (unat k mod sets c))"
    "\<And>j'. j' \<noteq> unat k mod sets c \<Longrightarrow> cache_line c' j' = cache_line c j'"
proof -
  let ?j = "unat k mod sets c"
  let ?s = "(k, v) # take (assoc c - 1) (cache_line c ?j)"
  let ?w = "writeout c @ (if fst (cache_line c ?j ! (assoc c - 1)) \<noteq> 0
              then [snd (cache_line c ?j ! (assoc c - 1))] else [])"
  let ?c = "c\<lparr>writeout := ?w, pdata := bv_store (pdata c) (?j * assoc c) ?s\<rparr>"
  have j: "?j < sets c" and pos: "0 < assoc c"
    using assms by (simp_all add: wf_positive)
  have len: "length ?s = assoc c"
    using pos length_cache_line [OF assms(1) j] by simp
  have "cache_write c k v = Inr (True, ?c)"
    by (rule cache_write_eq [OF assms])
  moreover have "wf_cache ?c" "cache_line ?c ?j = ?s"
    "\<And>j'. j' \<noteq> ?j \<Longrightarrow> cache_line ?c j' = cache_line c j'"
    using stored_line [OF assms(1) j len, of ?c] by simp_all
  ultimately show thesis
    by (intro that [of ?c]) simp_all
qed

lemma cache_read_props:
  assumes "wf_cache c" "0 < capacity c" "k \<noteq> 0"
    and "find_key k (cache_line c (unat k mod sets c)) 0 < assoc c"
  obtains c' where
    "cache_read c k =
       Inr (Some (snd (cache_line c (unat k mod sets c) ! find_key k (cache_line c (unat k mod sets c)) 0)), c')"
    "wf_cache c'" "capacity c' = capacity c" "assoc c' = assoc c" "sets c' = sets c"
    "writeout c' = writeout c"
    "cache_line c' (unat k mod sets c) =
       take (find_key k (cache_line c (unat k mod sets c)) 0) (cache_line c (unat k mod sets c)) @
       drop (Suc (find_key k (cache_line c (unat k mod sets c)) 0)) (cache_line c (unat k mod sets c)) @
       [(0, snd (cache_line c (unat k mod sets c) ! (assoc c - 1)))]"
    "\<And>j'. j' \<noteq> unat k mod sets c \<Longrightarrow> cache_line c' j' = cache_line c j'"
proof -
  let ?j = "unat k mod sets c"
  let ?l = "cache_line c ?j"
  let ?i = "find_key k ?l 0"
  let ?s = "take ?i ?l @ drop (Suc ?i) ?l @ [(0, snd (?l ! (assoc c - 1)))]"
  let ?c = "c\<lparr>pdata := bv_store (pdata c) (?j * assoc c) ?s\<rparr>"
  have j: "?j < sets c"
    using assms by (simp add: wf_positive)
  have len: "length ?s = assoc c"
    using assms(4) length_cache_line [OF assms(1) j] by simp
  have "cache_read c k = Inr (Some (snd (?l ! ?i)), ?c)"
    using cache_read_eq [OF assms(1-3)] assms(4) by simp
  moreover have "wf_cache ?c" "cache_line ?c ?j = ?s"
    "\<And>j'. j' \<noteq> ?j \<Longrightarrow> cache_line ?c j' = cache_line c j'"
    using stored_line [OF assms(1) j len, of ?c] by simp_all
  ultimately show thesis
    by (intro that [of ?c]) simp_all
qed

lemma cache_read_miss:
  assumes "wf_cache c" "0 < capacity c" "k \<noteq> 0"
    and "\<forall>e \<in> set (cache_line c (unat k mod sets c)). fst e \<noteq> k"
  shows "cache_read c k = Inr (None, c)"
proof -
  have "find_key k (cache_line c (unat k mod sets c)) 0 = assoc c"
    using assms length_cache_line [OF assms(1), of "unat k mod sets c"]
    by (simp add: find_key_miss_iff [symmetric] wf_positive)
  then show ?thesis
    using cache_read_eq [OF assms(1-3)] by simp
qed

lemma cache_erase_props:
  assumes "wf_cache c" "0 < capacity c" "k \<noteq> 0"
    and "find_key k (cache_line c (unat k mod sets c)) 0 < assoc c"
  obtains c' where
    "cache_erase c k = Inr (True, c')"
    "wf_cache c'" "capacity c' = capacity c" "assoc c' = assoc c" "sets c' = sets c"
    "writeout c' = writeout c @
       [snd (cache_line c (unat k mod sets c) ! find_key k (cache_line c (unat k mod sets c)) 0)]"
    "cache_line c' (unat k mod sets c) =
       take (find_key k (cache_line c (unat k mod sets c)) 0) (cache_line c (unat k mod sets c)) @
       drop (Suc (find_key k (cache_line c (unat k mod sets c)) 0)) (cache_line c (unat k mod sets c)) @
       [(0, snd (cache_line c (unat k mod sets c) ! (assoc c - 1)))]"
    "\<And>j'. j' \<noteq> unat k mod sets c \<Longrightarrow> cache_line c' j' = cache_line c j'"
proof -
  let ?j = "unat k mod sets c"
  let ?l = "cache_line c ?j"
  let ?i = "find_key k ?l 0"
  let ?s = "take ?i ?l @ drop (Suc ?i) ?l @ [(0, snd (?l ! (assoc c - 1)))]"
  let ?c = "c\<lparr>writeout := writeout c @ [snd (?l ! ?i)],
              pdata := bv_store (pdata c) (?j * assoc c) ?s\<rparr>"
  have j: "?j < sets c"
    using assms by (simp add: wf_positive)
  have len: "length ?s = assoc c"
    using assms(4) length_cache_line [OF assms(1) j] by simp
  have "cache_erase c k = Inr (True, ?c)"
    using cache_erase_eq [OF assms(1-3)] assms(4) by simp
  moreover have "wf_cache ?c" "cache_line ?c ?j = ?s"
    "\<And>j'. j' \<noteq> ?j \<Longrightarrow> cache_line ?c j' = cache_line c j'"
    using stored_line [OF assms(1) j len, of ?c] by simp_all
  ultimately show thesis
    by (intro that [of ?c]) simp_all
qed

lemma wf_cache_empty_line:
  assumes "wf_cache c" "capacity c = 0"
  shows "cache_line c j = []"
  using assms by (simp add: wf_cache_def cache_line_def bv_view_def)

lemma key_line_length:
  assumes "wf_cache c" "0 < capacity c"
  shows "length (cache_line c (unat k mod sets c)) = assoc c"
  using assms length_cache_line [OF assms(1), of "unat k mod sets c"]
  by (simp add: wf_positive)

lemma find_key_le_assoc:
  assumes "wf_cache c" "0 < capacity c"
  shows "find_key k (cache_line c (unat k mod sets c)) 0 \<le> assoc c"
  using find_key_bounds [of 0 "cache_line c (unat k mod sets c)" k] key_line_length [OF assms, of k]
  by simp

lemma cache_step_writebacks:
  assumes "wf_cache c" "op_admissible c x"
  shows "\<exists>c'. cache_step c x = Inr c' \<and> wf_cache c' \<and> capacity c' = capacity c \<and>
            writeout c' = writeout c @ claimed_writebacks c x @ forwarded_writebacks c x"
proof (cases x)
  case (Read k)
  with assms have k: "k \<noteq> 0" by simp
  show ?thesis
  proof (cases "capacity c = 0")
    case True
    then show ?thesis using assms(1) Read by (simp add: cache_read_def)
  next
    case False
    then have cap: "0 < capacity c" by simp
    let ?l = "cache_line c (unat k mod sets c)"
    have "find_key k ?l 0 \<le> assoc c"
      by (rule find_key_le_assoc [OF assms(1) cap])
    then consider "find_key k ?l 0 = assoc c" | "find_key k ?l 0 < assoc c"
      by linarith
    then show ?thesis
    proof cases
      case 1
      then show ?thesis
        using cache_read_eq [OF assms(1) cap k] assms(1) Read by simp
    next
      case 2
      from cache_read_props [OF assms(1) cap k 2] obtain c' where
        "cache_read c k = Inr (Some (snd (?l ! find_key k ?l 0)), c')" "wf_cache c'"
        "capacity c' = capacity c" "writeout c' = writeout c"
        by metis
      then show ?thesis using Read by simp
    qed
  qed
next
  case (Write k v)
  with assms have k: "k \<noteq> 0" by simp
  show ?thesis
  proof (cases "capacity c = 0")
    case True
    moreover have "wf_cache (c\<lparr>writeout := writeout c @ [v]\<rparr>)"
      using assms(1) by (simp add: wf_cache_def)
    ultimately show ?thesis
      using k Write wf_cache_empty_line [OF assms(1) True] by (simp add: cache_write_def)
  next
    case False
    then have cap: "0 < capacity c" by simp
    let ?l = "cache_line c (unat k mod sets c)"
    have len: "length ?l = assoc c" and pos: "0 < assoc c"
      using key_line_length [OF assms(1) cap, of k] wf_positive(2) [OF assms(1) cap]
      by simp_all
    then have ne: "?l \<noteq> []"
      by auto
    then have la: "last ?l = ?l ! (assoc c - 1)"
      using len by (simp add: last_conv_nth)
    from cache_write_props [OF assms(1) cap k, of v] obtain c' where
      "cache_write c k v = Inr (True, c')" "wf_cache c'" "capacity c' = capacity c"
      "writeout c' = writeout c @
         (if fst (?l ! (assoc c - 1)) \<noteq> 0 then [snd (?l ! (assoc c - 1))] else [])"
      by metis
    then show ?thesis
      using Write False ne la by simp
  qed
next
  case (Erase k)
  with assms have k: "k \<noteq> 0" and cap: "0 < capacity c" by simp_all
  let ?l = "cache_line c (unat k mod sets c)"
  have len: "length ?l = assoc c"
    by (rule key_line_length [OF assms(1) cap])
  have "find_key k ?l 0 \<le> assoc c"
    by (rule find_key_le_assoc [OF assms(1) cap])
  then consider "find_key k ?l 0 = assoc c" | "find_key k ?l 0 < assoc c"
    by linarith
  then show ?thesis
  proof cases
    case 1
    then show ?thesis
      using cache_erase_eq [OF assms(1) cap k] assms(1) Erase len
      by (simp add: find_key_find)
  next
    case 2
    from cache_erase_props [OF assms(1) cap k 2] obtain c' where
      "cache_erase c k = Inr (True, c')" "wf_cache c'" "capacity c' = capacity c"
      "writeout c' = writeout c @ [snd (?l ! find_key k ?l 0)]"
      by metis
    then show ?thesis
      using Erase 2 len by (simp add: find_key_find)
  qed
next
  case Flush
  then show ?thesis
    using cache_flush_effect [OF assms(1)] by simp
qed

lemma cache_run_writebacks:
  assumes "wf_cache c" "\<forall>x \<in> set ops. op_admissible c x"
  shows "\<exists>c'. cache_run c ops = Inr c' \<and> writeout c' = writeout c @ writeback_trace c ops"
  using assms
proof (induction ops arbitrary: c)
  case Nil
  then show ?case by simp
next
  case (Cons x xs)
  from cache_step_writebacks [of c x] Cons.prems obtain c1 where
    s: "cache_step c x = Inr c1" "wf_cache c1" "capacity c1 = capacity c"
    "writeout c1 = writeout c @ claimed_writebacks c x @ forwarded_writebacks c x"
    by auto
  have "op_admissible c1 y" if "y \<in> set xs" for y
    using Cons.prems(2) that s(3) by (cases y) auto
  with Cons.IH [OF s(2)] obtain c' where
    "cache_run c1 xs = Inr c'" "writeout c' = writeout c1 @ writeback_trace c1 xs"
    by auto
  then show ?case
    using s by simp
qed

lemma wf_cache_new: "wf_cache (cache_manager_lru_new cap asc d)"
proof (cases "cap = 0")
  case True
  then show ?thesis
    by (simp add: cache_manager_lru_new_def wf_cache_def)
next
  case False
  define a where "a = (if (if asc = 0 then cap else asc) > cap then cap else (if asc = 0 then cap else asc))"
  define c1 where "c1 = (if cap mod a \<noteq> 0 then (cap div a) * a else cap)"
  have c1: "c1 = (cap div a) * a"
    by (auto simp: c1_def)
  have "c1 = c1 div a * a"
    by (cases "a = 0") (simp_all add: c1)
  moreover have "cache_manager_lru_new cap asc d =
      \<lparr>capacity = c1, assoc = a, sets = c1 div a, pdata = replicate c1 (0, d), writeout = []\<rparr>"
    unfolding cache_manager_lru_new_def Let_def a_def [symmetric] c1_def [symmetric]
    using False by (simp only: if_True refl simp_thms)
  ultimately show ?thesis
    by (simp add: wf_cache_def)
qed

text \<open>
  Claim C2. On a well-formed cache a write with a nonzero key returns \<open>true\<close>. With
  capacity 0 the value goes straight to the writeout functor and the array is untouched.
  Otherwise the value of the last slot of the line of the key (line \<open>k mod sets\<close>) is
  written out when that slot is occupied, the new item stands in slot 0 of the line, the
  former occupants of slots \<open>0 .. assoc - 2\<close> follow it one slot further, and the
  other lines are unchanged.
\<close>

theorem cache_write_inserts_front:
  assumes "wf_cache c" "k \<noteq> 0"
  shows "\<exists>c'. cache_write c k v = Inr (True, c') \<and>
     (if capacity c = 0 then writeout c' = writeout c @ [v] \<and> pdata c' = pdata c
      else writeout c' = writeout c @
             (if fst (cache_line c (unat k mod sets c) ! (assoc c - 1)) \<noteq> 0
              then [snd (cache_line c (unat k mod sets c) ! (assoc c - 1))] else []) \<and>
           cache_line c' (unat k mod sets c) =
             (k, v) # take (assoc c - 1) (cache_line c (unat k mod sets c)) \<and>
           (\<forall>j'. j' < sets c \<and> j' \<noteq> unat k mod sets c \<longrightarrow> cache_line c' j' = cache_line c j'))"
proof (cases "capacity c = 0")
  case True
  then show ?thesis
    using assms(2) by (simp add: cache_write_def)
next
  case False
  then have cap: "0 < capacity c" by simp
  show ?thesis
  proof (rule cache_write_props [OF assms(1) cap assms(2), of v])
    fix c'
    assume "cache_write c k v = Inr (True, c')"
      and "writeout c' = writeout c @
         (if fst (cache_line c (unat k mod sets c) ! (assoc c - 1)) \<noteq> 0
          then [snd (cache_line c (unat k mod sets c) ! (assoc c - 1))] else [])"
      and "cache_line c' (unat k mod sets c) =
         (k, v) # take (assoc c - 1) (cache_line c (unat k mod sets c))"
      and "\<And>j'. j' \<noteq> unat k mod sets c \<Longrightarrow> cache_line c' j' = cache_line c j'"
    then show ?thesis
      using False by simp
  qed
qed

theorem cache_write_inserts_front_witness:
  "wf_cache \<lparr>capacity = 4, assoc = 2, sets = 2,
             pdata = [(4, 40), (6, 60), (0, 0), (3, 30)], writeout = [20 :: nat]\<rparr> \<and>
   (8 :: TPIE_OS_OFFSET) \<noteq> 0 \<and>
   (\<exists>c'. cache_write \<lparr>capacity = 4, assoc = 2, sets = 2,
             pdata = [(4, 40), (6, 60), (0, 0), (3, 30)], writeout = [20 :: nat]\<rparr> 8 80
            = Inr (True, c') \<and>
         writeout c' = [20, 60] \<and> cache_line c' 0 = [(8, 80), (4, 40)])"
proof -
  let ?c = "\<lparr>capacity = 4, assoc = 2, sets = 2,
             pdata = [(4, 40), (6, 60), (0, 0), (3, 30)], writeout = [20 :: nat]\<rparr>"
  have wf: "wf_cache ?c"
    by (simp add: wf_cache_def)
  have k: "(8 :: TPIE_OS_OFFSET) \<noteq> 0"
    by simp
  have l: "cache_line ?c 0 = [(4, 40), (6, 60)]"
    by (simp add: cache_line_def bv_view_def)
  from cache_write_inserts_front [OF wf k, of 80] obtain c' where
    "cache_write ?c 8 80 = Inr (True, c')"
    "writeout c' = [20, 60]" "cache_line c' 0 = [(8, 80), (4, 40)]"
    by (auto simp: l)
  with wf k show ?thesis
    by blast
qed

lemma takeWhile_all_nth:
  "j < length (takeWhile P s) \<Longrightarrow> P (s ! j)"
proof (induction s arbitrary: j)
  case Nil
  then show ?case by simp
next
  case (Cons a s)
  then show ?case
    by (cases j) (auto split: if_splits)
qed

lemma find_key_prefix:
  assumes "find_key k s 0 < n" "n \<le> length s"
  shows "find_key k (take n s @ ys) 0 = find_key k s 0"
proof -
  let ?P = "\<lambda>e. fst e \<noteq> k"
  let ?i = "length (takeWhile ?P s)"
  have i: "?i < n" "?i < length s"
    using assms by (simp_all add: find_key_takeWhile)
  have a: "?P ((take n s @ ys) ! j)" if "j < ?i" for j
  proof -
    have "?P (s ! j)"
      using that by (rule takeWhile_all_nth)
    then show ?thesis
      using that i by (simp add: nth_append)
  qed
  have b: "\<not> ?P ((take n s @ ys) ! ?i)"
    using i nth_length_takeWhile [of ?P s] by (simp add: nth_append)
  have "takeWhile ?P (take n s @ ys) = take ?i (take n s @ ys)"
  proof (rule takeWhile_eq_take_P_nth)
    show "\<And>j. j < ?i \<Longrightarrow> j < length (take n s @ ys) \<Longrightarrow> ?P ((take n s @ ys) ! j)"
      using a by blast
    show "?i < length (take n s @ ys) \<Longrightarrow> \<not> ?P ((take n s @ ys) ! ?i)"
      using b by blast
  qed
  then have "length (takeWhile ?P (take n s @ ys)) = ?i"
    using i assms(2) by simp
  then show ?thesis
    by (simp add: find_key_takeWhile)
qed

lemma write_then_read_aux:
  assumes "wf_cache c" "0 < capacity c" "k \<noteq> 0"
  obtains c1 c2 where "cache_write c k v = Inr (True, c1)"
    "cache_read c1 k = Inr (Some v, c2)"
    "writeout c1 = writeout c @
       (if fst (cache_line c (unat k mod sets c) ! (assoc c - 1)) \<noteq> 0
        then [snd (cache_line c (unat k mod sets c) ! (assoc c - 1))] else [])"
    "writeout c2 = writeout c1" "wf_cache c2"
    "capacity c2 = capacity c" "assoc c2 = assoc c" "sets c2 = sets c"
    "cache_line c1 (unat k mod sets c) = (k, v) # take (assoc c - 1) (cache_line c (unat k mod sets c))"
    "cache_line c2 (unat k mod sets c) =
       take (assoc c - 1) (cache_line c (unat k mod sets c)) @
       [(0, snd (((k, v) # take (assoc c - 1) (cache_line c (unat k mod sets c))) ! (assoc c - 1)))]"
proof -
  let ?j = "unat k mod sets c"
  let ?l = "cache_line c ?j"
  let ?p = "take (assoc c - 1) ?l"
  have pos: "0 < assoc c"
    using wf_positive(2) [OF assms(1,2)] .
  show thesis
  proof (rule cache_write_props [OF assms(1-3), of v])
    fix c1
    assume w: "cache_write c k v = Inr (True, c1)" "wf_cache c1"
      "capacity c1 = capacity c" "assoc c1 = assoc c" "sets c1 = sets c"
      "cache_line c1 ?j = (k, v) # ?p"
      and wo: "writeout c1 = writeout c @
       (if fst (?l ! (assoc c - 1)) \<noteq> 0 then [snd (?l ! (assoc c - 1))] else [])"
    have cap1: "0 < capacity c1"
      using w(3) assms(2) by simp
    have l1: "cache_line c1 (unat k mod sets c1) = (k, v) # ?p"
      using w(5,6) by simp
    have f1: "find_key k (cache_line c1 (unat k mod sets c1)) 0 = 0"
      unfolding l1 by (rule find_key_Cons_hit)
    have hit: "find_key k (cache_line c1 (unat k mod sets c1)) 0 < assoc c1"
      using f1 pos w(4) by simp
    show thesis
    proof (rule cache_read_props [OF w(2) cap1 assms(3) hit])
      fix c2
      assume r: "cache_read c1 k =
          Inr (Some (snd (cache_line c1 (unat k mod sets c1) !
                 find_key k (cache_line c1 (unat k mod sets c1)) 0)), c2)"
        "wf_cache c2" "capacity c2 = capacity c1" "assoc c2 = assoc c1" "sets c2 = sets c1"
        "writeout c2 = writeout c1"
        "cache_line c2 (unat k mod sets c1) =
           take (find_key k (cache_line c1 (unat k mod sets c1)) 0) (cache_line c1 (unat k mod sets c1)) @
           drop (Suc (find_key k (cache_line c1 (unat k mod sets c1)) 0)) (cache_line c1 (unat k mod sets c1)) @
           [(0, snd (cache_line c1 (unat k mod sets c1) ! (assoc c1 - 1)))]"
      have r1: "cache_read c1 k = Inr (Some v, c2)"
        using r(1) by (simp add: l1 find_key_Cons_hit)
      have "cache_line c2 (unat k mod sets c1) = ?p @ [(0, snd (((k, v) # ?p) ! (assoc c1 - 1)))]"
        using r(7) by (simp add: l1 find_key_Cons_hit)
      then have l2: "cache_line c2 ?j = ?p @ [(0, snd (((k, v) # ?p) ! (assoc c - 1)))]"
        unfolding w(4) w(5) .
      show thesis
        using w(1) r1 wo r(6) r(2) r(3) r(4) r(5) w(3) w(4) w(5) w(6) l2
        by (intro that [of c1 c2]) simp_all
    qed
  qed
qed

text \<open>
  Claim C3, amended. On a well-formed cache of capacity \<open>C > 0\<close>, for a nonzero key
  \<open>k\<close> that is in none of the slots \<open>0 .. assoc - 2\<close> of its line: a write of
  \<open>(k, v)\<close> followed at once by \<open>read(k)\<close> returns \<open>v\<close> with \<open>true\<close>, the read hands
  nothing to the writeout functor, the line holds its former slots \<open>0 .. assoc - 2\<close>
  again with the trailing slot empty, and a second \<open>read(k)\<close> misses and changes nothing.
\<close>

theorem write_then_read:
  assumes "wf_cache c" "0 < capacity c" "k \<noteq> 0"
    and "\<forall>e \<in> set (take (assoc c - 1) (cache_line c (unat k mod sets c))). fst e \<noteq> k"
  shows "\<exists>c1 c2. cache_write c k v = Inr (True, c1) \<and>
           cache_read c1 k = Inr (Some v, c2) \<and>
           writeout c2 = writeout c1 \<and>
           take (assoc c - 1) (cache_line c2 (unat k mod sets c)) =
             take (assoc c - 1) (cache_line c (unat k mod sets c)) \<and>
           length (cache_line c2 (unat k mod sets c)) = assoc c \<and>
           fst (cache_line c2 (unat k mod sets c) ! (assoc c - 1)) = 0 \<and>
           cache_read c2 k = Inr (None, c2)"
proof (rule write_then_read_aux [OF assms(1-3), of v])
  let ?j = "unat k mod sets c"
  let ?p = "take (assoc c - 1) (cache_line c ?j)"
  fix c1 c2
  assume a: "cache_write c k v = Inr (True, c1)" "cache_read c1 k = Inr (Some v, c2)"
    "writeout c2 = writeout c1" "wf_cache c2"
    "capacity c2 = capacity c" "assoc c2 = assoc c" "sets c2 = sets c"
    "cache_line c2 ?j = ?p @ [(0, snd (((k, v) # ?p) ! (assoc c - 1)))]"
  have pos: "0 < assoc c"
    using wf_positive(2) [OF assms(1,2)] .
  have lp: "length ?p = assoc c - 1"
    using key_line_length [OF assms(1,2), of k] by simp
  have keys: "\<forall>e \<in> set (cache_line c2 (unat k mod sets c2)). fst e \<noteq> k"
    unfolding a(7) a(8) using assms(3,4) by simp
  have cap2: "0 < capacity c2"
    using a(5) assms(2) by simp
  have miss: "cache_read c2 k = Inr (None, c2)"
    by (rule cache_read_miss [OF a(4) cap2 assms(3) keys])
  have t: "take (assoc c - 1) (cache_line c2 ?j) = ?p"
    unfolding a(8) using lp by simp
  have n: "length (cache_line c2 ?j) = assoc c"
    unfolding a(8) using lp pos by simp
  have e: "fst (cache_line c2 ?j ! (assoc c - 1)) = 0"
    unfolding a(8) using lp by (simp add: nth_append)
  show ?thesis
    using a(1) a(2) a(3) t n e miss by (intro exI conjI)
qed

text \<open>
  Claim C8, amended. On a well-formed cache of capacity \<open>C > 0\<close>, when the first slot
  of its line that holds the nonzero key \<open>k\<close> is not the last slot of the line, a write
  of \<open>(k, v2)\<close> keeps that entry: it now stands one slot further, behind the new entry
  in slot 0, the next \<open>read(k)\<close> returns \<open>v2\<close> and the one after it returns the value
  of the older entry.
\<close>

theorem write_resident_key:
  assumes "wf_cache c" "0 < capacity c" "k \<noteq> 0"
    and "find_key k (cache_line c (unat k mod sets c)) 0 < assoc c - 1"
  shows "\<exists>c1 c2 c3. cache_write c k v2 = Inr (True, c1) \<and>
           cache_line c1 (unat k mod sets c) ! 0 = (k, v2) \<and>
           cache_line c1 (unat k mod sets c) ! Suc (find_key k (cache_line c (unat k mod sets c)) 0) =
             cache_line c (unat k mod sets c) ! find_key k (cache_line c (unat k mod sets c)) 0 \<and>
           fst (cache_line c (unat k mod sets c) ! find_key k (cache_line c (unat k mod sets c)) 0) = k \<and>
           cache_read c1 k = Inr (Some v2, c2) \<and>
           cache_read c2 k =
             Inr (Some (snd (cache_line c (unat k mod sets c) !
                               find_key k (cache_line c (unat k mod sets c)) 0)), c3)"
proof (rule write_then_read_aux [OF assms(1-3), of v2])
  let ?j = "unat k mod sets c"
  let ?l = "cache_line c ?j"
  let ?i = "find_key k ?l 0"
  let ?p = "take (assoc c - 1) ?l"
  let ?x = "(0 :: TPIE_OS_OFFSET, snd (((k, v2) # ?p) ! (assoc c - 1)))"
  fix c1 c2
  assume a: "cache_write c k v2 = Inr (True, c1)" "cache_read c1 k = Inr (Some v2, c2)"
    "wf_cache c2" "capacity c2 = capacity c" "assoc c2 = assoc c" "sets c2 = sets c"
    "cache_line c1 ?j = (k, v2) # ?p"
    "cache_line c2 ?j = ?p @ [?x]"
  have len: "length ?l = assoc c"
    by (rule key_line_length [OF assms(1,2)])
  have il: "?i < length ?l"
    using assms(4) len by simp
  have key: "fst (?l ! ?i) = k"
    by (rule find_key_hit [OF il])
  have s0: "cache_line c1 ?j ! 0 = (k, v2)"
    unfolding a(7) by simp
  have s1: "cache_line c1 ?j ! Suc ?i = ?l ! ?i"
    unfolding a(7) using assms(4) by simp
  have f2: "find_key k (?p @ [?x]) 0 = ?i"
    using assms(4) len by (intro find_key_prefix) simp_all
  have l2: "cache_line c2 (unat k mod sets c2) = ?p @ [?x]"
    unfolding a(6) by (rule a(8))
  have hit: "find_key k (cache_line c2 (unat k mod sets c2)) 0 < assoc c2"
    unfolding l2 f2 a(5) using assms(4) by simp
  have cap2: "0 < capacity c2"
    using a(4) assms(2) by simp
  have nth: "(?p @ [?x]) ! ?i = ?l ! ?i"
    using assms(4) len by (simp add: nth_append)
  show ?thesis
  proof (rule cache_read_props [OF a(3) cap2 assms(3) hit])
    fix c3
    assume "cache_read c2 k =
        Inr (Some (snd (cache_line c2 (unat k mod sets c2) !
               find_key k (cache_line c2 (unat k mod sets c2)) 0)), c3)"
    then have r2: "cache_read c2 k = Inr (Some (snd (?l ! ?i)), c3)"
      unfolding l2 f2 nth .
    show ?thesis
      using a(1) s0 s1 key a(2) r2 by (intro exI conjI)
  qed
qed

lemma demo_wf: "wf_cache demo_cache"
  by (simp add: wf_cache_def demo_cache_def)

lemma demo_cap: "0 < capacity demo_cache"
  by (simp add: demo_cache_def)

text \<open>The hypotheses of \<open>write_then_read\<close> hold on a cache of two lines of two slots.\<close>

theorem write_then_read_witness:
  "\<exists>c1 c2. cache_write demo_cache 4 40 = Inr (True, c1) \<and>
           cache_read c1 4 = Inr (Some 40, c2) \<and>
           writeout c2 = writeout c1 \<and>
           cache_read c2 4 = Inr (None, c2)"
proof -
  have k: "(4 :: TPIE_OS_OFFSET) \<noteq> 0"
    by simp
  have h: "\<forall>e \<in> set (take (assoc demo_cache - 1)
             (cache_line demo_cache (unat (4 :: TPIE_OS_OFFSET) mod sets demo_cache))). fst e \<noteq> 4"
    by code_simp
  show ?thesis
    using write_then_read [OF demo_wf demo_cap k h, of 40]
    by (elim exE conjE, intro exI conjI) assumption+
qed

text \<open>
  Claim C3 as stated fails when the key was already in the line: on a fresh cache of one
  line of two slots, after \<open>write(1, 10)\<close> the sequence \<open>write(1, 20)\<close>, \<open>read(1)\<close>,
  \<open>read(1)\<close> ends with a hit on the older value 10, not with a miss.
\<close>

theorem read_after_rewrite_hits_twice:
  "map_sum id fst
     (then_read (then_read (then_write
        (cache_write (cache_manager_lru_new 2 2 (0 :: nat)) 1 10) 1 20) 1) 1) = Inr (Some 10)"
  by code_simp

text \<open>The hypotheses of \<open>write_resident_key\<close> hold for key 8 of the same cache.\<close>

theorem write_resident_key_witness:
  "\<exists>c1 c2 c3. cache_write demo_cache 8 20 = Inr (True, c1) \<and>
           cache_read c1 8 = Inr (Some 20, c2) \<and>
           cache_read c2 8 = Inr (Some 10, c3)"
proof -
  have k: "(8 :: TPIE_OS_OFFSET) \<noteq> 0"
    by simp
  have f: "find_key 8 (cache_line demo_cache (unat (8 :: TPIE_OS_OFFSET) mod sets demo_cache)) 0 = 0"
    by code_simp
  have h: "find_key 8 (cache_line demo_cache (unat (8 :: TPIE_OS_OFFSET) mod sets demo_cache)) 0
             < assoc demo_cache - 1"
    by code_simp
  have v: "snd (cache_line demo_cache (unat (8 :: TPIE_OS_OFFSET) mod sets demo_cache) !
             find_key 8 (cache_line demo_cache (unat (8 :: TPIE_OS_OFFSET) mod sets demo_cache)) 0) = 10"
    by code_simp
  show ?thesis
    using write_resident_key [OF demo_wf demo_cap k h, of 20] unfolding v
    by (elim exE conjE, intro exI conjI) assumption+
qed

text \<open>
  Claim C8 as stated fails when the resident entry is in the last slot of its line: with
  one slot per line the second write overwrites the entry, and the second read misses.
\<close>

theorem rewrite_direct_mapped_displaces:
  "map_sum id fst
     (then_read (then_read (then_write
        (cache_write (cache_manager_lru_new 1 1 (0 :: nat)) 1 10) 1 20) 1) 1) = Inr None"
  by code_simp

text \<open>
  Claim C4, amended. On a well-formed cache every sequence of reads, writes, erases and
  flushes with nonzero keys (erases only when the capacity is not 0) runs to its end, and
  the values handed to the writeout functor are, in order, exactly: for a write the value
  of the occupied last slot of the line, or the written value itself when the capacity is
  0; for an erase the value of the first entry of the line with that key; for a flush the
  values of all occupied slots; for a read nothing. After a flush every slot is empty.
\<close>

theorem writeback_points:
  assumes "wf_cache c" "\<forall>x \<in> set ops. op_admissible c x"
  shows "(\<exists>c'. cache_run c ops = Inr c' \<and> writeout c' = writeout c @ writeback_trace c ops) \<and>
         (\<forall>e \<in> set (pdata (cache_flush c)). fst e = 0)"
proof
  show "\<exists>c'. cache_run c ops = Inr c' \<and> writeout c' = writeout c @ writeback_trace c ops"
    by (rule cache_run_writebacks [OF assms])
  show "\<forall>e \<in> set (pdata (cache_flush c)). fst e = 0"
    unfolding cache_flush_effect(2) [OF assms(1)] by simp
qed

text \<open>A run of nine operations on a cache of two lines of two slots.\<close>

theorem writeback_points_witness:
  "\<exists>c'. cache_run (cache_manager_lru_new 4 2 (0 :: nat))
           [Write 1 11, Write 3 12, Write 5 13, Read 3, Write 7 14, Write 9 15, Erase 7, Read 2, Flush]
         = Inr c' \<and> writeout c' = [11, 13, 14, 15]"
proof -
  let ?c = "cache_manager_lru_new 4 2 (0 :: nat)"
  let ?ops = "[Write 1 11, Write 3 12, Write 5 13, Read 3, Write 7 14, Write 9 15, Erase 7, Read 2, Flush]"
  have a: "\<forall>x \<in> set ?ops. op_admissible ?c x"
    by code_simp
  have t: "writeout ?c @ writeback_trace ?c ?ops = [11, 13, 14, 15]"
    by code_simp
  show ?thesis
    using writeback_points [OF wf_cache_new a] unfolding t
    by (elim exE conjE, intro exI conjI) assumption+
qed

text \<open>
  Claim C4 as stated fails on a cache of capacity 0: it has no slot, no write displaces
  anything, and yet the write hands its value to the writeout functor.
\<close>

theorem write_without_slot_forwards:
  "map_sum id writeout (cache_step (cache_manager_lru_new 0 0 (0 :: nat)) (Write 1 7)) = Inr [7] \<and>
   pdata (cache_manager_lru_new 0 0 (0 :: nat)) = [] \<and>
   claimed_writebacks (cache_manager_lru_new 0 0 (0 :: nat)) (Write 1 7) = []"
  by code_simp

section \<open>Properties of the progress indicator\<close>

lemma ofs_add_sint:
  assumes "ofs_add a b = Inr c"
  shows "sint c = sint a + sint b"
proof -
  have r: "ofs_in_range (sint a + sint b)" and c: "c = a + b"
    using assms by (auto simp: ofs_add_def split: if_splits)
  have "signed_take_bit 63 (sint a + sint b) = sint a + sint b"
    using r by (intro signed_take_bit_int_eq_self) (simp_all add: ofs_in_range_def)
  then show ?thesis
    by (simp add: c sint_word_add)
qed

lemma sint_one_ofs: "sint (1 :: TPIE_OS_OFFSET) = 1"
  by simp

lemma sless_zero_imp_sle_one:
  "0 <s (v :: TPIE_OS_OFFSET) \<Longrightarrow> 1 <=s v"
  by (simp add: word_sless_alt word_sle_eq)

lemma step_current:
  assumes "step threshold p n t = Inr p'"
  shows "sint (m_current p') = sint (m_current p) + sint n"
    and "m_stepValue p' = m_stepValue p"
proof -
  from assms obtain c where c: "ofs_add (m_current p) n = Inr c"
    and p': "p' = (if elapsed t (m_lastUpdate p) > threshold
                   then p\<lparr>m_current := c, m_lastUpdate := t\<rparr> else p\<lparr>m_current := c\<rparr>)"
    by (auto simp: step_def Let_def split: sum.splits if_splits)
  show "sint (m_current p') = sint (m_current p) + sint n"
    using ofs_add_sint [OF c] by (simp add: p')
  show "m_stepValue p' = m_stepValue p"
    by (simp add: p')
qed

lemma step_default_current:
  assumes "step_default threshold p t = Inr p'"
  shows "sint (m_current p') = sint (m_current p) + sint (m_stepValue p)"
    and "m_stepValue p' = m_stepValue p"
  using step_current [of threshold p "m_stepValue p" t p'] assms
  by (simp_all add: step_default_def)

lemma step_percentage_current:
  assumes "step_percentage threshold p t = Inr p'"
  shows "sint (m_current p') = sint (m_current p) \<or>
         sint (m_current p') = sint (m_current p) + sint (m_stepValue p)"
    and "m_stepValue p' = m_stepValue p"
proof -
  from assms obtain c2 where
    d: "p' = p\<lparr>m_percentageChecker := c2\<rparr> \<or>
        step_default threshold (p\<lparr>m_percentageChecker := c2\<rparr>) t = Inr p'"
    by (auto simp: step_percentage_def Let_def split: sum.splits if_splits)
  then show "sint (m_current p') = sint (m_current p) \<or>
         sint (m_current p') = sint (m_current p) + sint (m_stepValue p)"
    using step_default_current(1) [of threshold "p\<lparr>m_percentageChecker := c2\<rparr>" t p'] by auto
  from d show "m_stepValue p' = m_stepValue p"
    using step_default_current(2) [of threshold "p\<lparr>m_percentageChecker := c2\<rparr>" t p'] by auto
qed

lemma apply_update_mono:
  assumes "1 <=s m_stepValue p" "forward_update u" "apply_update threshold p (u, t) = Inr p'"
  shows "sint (m_current p) \<le> sint (m_current p') \<and> m_stepValue p' = m_stepValue p"
proof (cases u)
  case (Step n)
  then show ?thesis
    using assms step_current [of threshold p n t p'] by (simp add: word_sle_eq)
next
  case StepDefault
  then show ?thesis
    using assms step_default_current [of threshold p t p'] by (simp add: word_sle_eq)
next
  case StepPercentage
  then show ?thesis
    using assms step_percentage_current [of threshold p t p'] by (auto simp: word_sle_eq)
qed

lemma run_updates_mono:
  assumes "1 <=s m_stepValue p" "\<forall>x \<in> set ops. forward_update (fst x)"
    and "run_updates threshold p ops = Inr ps"
  shows "sorted (map (\<lambda>q. sint (m_current q)) (p # ps))"
  using assms
proof (induction ops arbitrary: p ps)
  case Nil
  then show ?case by simp
next
  case (Cons x xs)
  obtain u t where x: "x = (u, t)"
    by (cases x)
  from Cons.prems(3) obtain p1 ps1 where
    s: "apply_update threshold p (u, t) = Inr p1" "run_updates threshold p1 xs = Inr ps1"
    "ps = p1 # ps1"
    by (auto simp: x split: sum.splits)
  have m: "sint (m_current p) \<le> sint (m_current p1)" "m_stepValue p1 = m_stepValue p"
    using apply_update_mono [OF Cons.prems(1) _ s(1)] Cons.prems(2) by (simp_all add: x)
  have "sorted (map (\<lambda>q. sint (m_current q)) (p1 # ps1))"
    using Cons.IH [of p1 ps1] Cons.prems(1,2) m(2) s(2) by simp
  then show ?case
    using m(1) s(3) by auto
qed

lemma std_max_one: "1 <=s std_max a 1"
  by (simp add: std_max_def word_sle_eq word_sless_alt)

lemma new_step_value:
  "progress_indicator_base_new a b s t = Inr p \<Longrightarrow> 1 <=s m_stepValue p"
  by (auto simp: progress_indicator_base_new_def Let_def std_max_one split: sum.splits)

lemma set_range_step_value:
  "set_range q a b s = Inr p \<Longrightarrow> 1 <=s m_stepValue p"
  by (auto simp: set_range_def Let_def reset_def set_step_value_def std_max_one split: sum.splits)

lemma set_percentage_range_step_value:
  "set_percentage_range q a b u = Inr p \<Longrightarrow> 1 <=s m_stepValue p"
  by (auto simp: set_percentage_range_def Let_def reset_def set_step_value_def
      set_min_range_def set_max_range_def word_sle_eq split: sum.splits if_splits)

lemma init_step_value:
  "1 <=s m_stepValue q \<Longrightarrow> init q r s t = Inr p \<Longrightarrow> 1 <=s m_stepValue p"
  using set_range_step_value [of q 0 r s]
  by (auto simp: init_def split: sum.splits if_splits)

lemma set_percentage_range_value:
  "set_percentage_range q a b u = Inr p \<Longrightarrow> 1 <=s m_percentageValue p"
  by (auto simp: set_percentage_range_def Let_def reset_def set_step_value_def
      set_min_range_def set_max_range_def word_sle_eq word_sless_alt
      split: sum.splits if_splits)

lemma new_percentage_value:
  "progress_indicator_base_new a b s t = Inr p \<Longrightarrow>
     m_percentageValue p = 0 \<and> m_percentageChecker p = 0"
  by (auto simp: progress_indicator_base_new_def Let_def split: sum.splits)

lemma step_percentage_zero:
  assumes "m_percentageValue p = 0" "m_percentageChecker p = 0"
  shows "step_percentage threshold p t = Inl RemainderByZero"
proof -
  have "ofs_add 0 1 = Inr 1"
    by (simp add: ofs_add_def ofs_in_range_def)
  then show ?thesis
    using assms by (simp add: step_percentage_def ofs_rem_def)
qed

lemma step_percentage_nonzero:
  assumes "1 <=s m_percentageValue p"
  shows "step_percentage threshold p t \<noteq> Inl RemainderByZero"
proof -
  have nz: "m_percentageValue p \<noteq> 0"
    using assms by (auto simp: word_sle_eq)
  have a: "step threshold q n t \<noteq> Inl RemainderByZero" for q n
    by (auto simp: step_def ofs_add_def Let_def split: sum.splits)
  show ?thesis
    using nz a
    by (auto simp: step_percentage_def step_default_def ofs_add_def ofs_rem_def Let_def
        split: sum.splits if_splits)
qed

text \<open>
  Claim C6, amended. From a state whose step value is at least 1 (as the constructor,
  \<open>set_range\<close>, \<open>set_percentage_range\<close> and \<open>init\<close> leave it), along every sequence
  of updates \<open>step(n)\<close> with \<open>n \<ge> 0\<close>, \<open>step()\<close> and \<open>step_percentage()\<close> in which no
  operation is undefined (no overflow of the position, no remainder by zero), the
  position returned by \<open>get_current\<close> never decreases.
\<close>

theorem progress_monotone:
  assumes "1 <=s m_stepValue p" "\<forall>x \<in> set ops. forward_update (fst x)"
    and "run_updates threshold p ops = Inr ps"
  shows "sorted (map (\<lambda>q. sint (get_current q)) (p # ps))"
  using run_updates_mono [OF assms] by (simp add: get_current_def)

text \<open>Six updates after \<open>set_percentage_range(0, 400, 100)\<close>.\<close>

theorem progress_monotone_witness:
  "(case progress_indicator_base_new 0 100 1 0 of
      Inl e \<Rightarrow> Inl e | Inr p \<Rightarrow> set_percentage_range p 0 400 100) = Inr demo_progress \<and>
   (\<exists>ps. run_updates 10 demo_progress
            [(StepPercentage, 1), (StepPercentage, 2), (StepPercentage, 13), (StepPercentage, 14),
             (Step 5, 15), (StepDefault, 30)] = Inr ps \<and>
         map (\<lambda>q. sint (get_current q)) ps = [0, 0, 0, 1, 6, 7] \<and>
         sorted (map (\<lambda>q. sint (get_current q)) (demo_progress # ps)))"
proof -
  let ?ops = "[(StepPercentage, 1), (StepPercentage, 2), (StepPercentage, 13), (StepPercentage, 14),
             (Step 5, 15), (StepDefault, 30)]"
  have i: "(case progress_indicator_base_new 0 100 1 0 of
      Inl e \<Rightarrow> Inl e | Inr p \<Rightarrow> set_percentage_range p 0 400 100) = Inr demo_progress"
    by code_simp
  have s: "1 <=s m_stepValue demo_progress"
    by code_simp
  have f: "\<forall>x \<in> set ?ops. forward_update (fst x)"
    by code_simp
  have e: "map_sum id (map (\<lambda>q. sint (get_current q))) (run_updates 10 demo_progress ?ops)
             = Inr [0, 0, 0, 1, 6, 7]"
    by code_simp
  then obtain ps where ps: "run_updates 10 demo_progress ?ops = Inr ps"
    "map (\<lambda>q. sint (get_current q)) ps = [0, 0, 0, 1, 6, 7]"
    by (cases "run_updates 10 demo_progress ?ops") auto
  have "sorted (map (\<lambda>q. sint (get_current q)) (demo_progress # ps))"
    by (rule progress_monotone [OF s f ps(1)])
  with i ps show ?thesis
    by (intro conjI exI)
qed

text \<open>
  Claim C6 as stated fails for a negative argument of \<open>step\<close>: after
  \<open>set_range(0, 100, 1)\<close>, \<open>step(5)\<close> and \<open>step(-1)\<close> leave the position at 5, then 4.
\<close>

theorem negative_step_moves_back:
  "(case progress_indicator_base_new 0 100 1 0 of
      Inl e \<Rightarrow> Inl e | Inr p \<Rightarrow> set_range p 0 100 1) = Inr (demo_progress\<lparr>m_percentageValue := 0, m_percentageUnit := 0\<rparr>) \<and>
   map_sum id (map (\<lambda>q. sint (get_current q)))
     (run_updates 10 (demo_progress\<lparr>m_percentageValue := 0, m_percentageUnit := 0\<rparr>)
        [(Step 5, 1), (Step (- 1), 2)]) = Inr [5, 4]"
  by code_simp

text \<open>
  Claim C9. In the state the constructor builds, \<open>m_percentageValue\<close> is 0 and
  \<open>step_percentage\<close> takes a remainder by zero; \<open>set_percentage_range\<close> leaves
  \<open>m_percentageValue \<ge> 1\<close>, and then \<open>step_percentage\<close> takes no remainder by zero.
\<close>

theorem step_percentage_needs_range:
  assumes "progress_indicator_base_new a b s t = Inr p"
    and "set_percentage_range q a' b' u = Inr p'"
  shows "m_percentageValue p = 0 \<and>
         step_percentage threshold p now = Inl RemainderByZero \<and>
         1 <=s m_percentageValue p' \<and>
         step_percentage threshold p' now \<noteq> Inl RemainderByZero"
  using new_percentage_value [OF assms(1)] set_percentage_range_value [OF assms(2)]
    step_percentage_zero [of p threshold now] step_percentage_nonzero [of p' threshold now]
  by simp

text \<open>The fresh indicator of range 0 to 100, before and after \<open>set_percentage_range(0, 400, 100)\<close>.\<close>

theorem step_percentage_needs_range_witness:
  "step_percentage 10
     \<lparr>m_minRange = 0, m_maxRange = 100, m_stepValue = 1, m_current = 0,
      m_percentageChecker = 0, m_percentageValue = 0, m_percentageUnit = 0,
      m_lastUpdate = 0, m_predictor = 0\<rparr> 5 = Inl RemainderByZero \<and>
   step_percentage 10 demo_progress 5 \<noteq> Inl RemainderByZero"
proof -
  let ?p = "\<lparr>m_minRange = 0, m_maxRange = 100, m_stepValue = 1, m_current = 0,
      m_percentageChecker = 0, m_percentageValue = 0, m_percentageUnit = 0,
      m_lastUpdate = 0, m_predictor = 0\<rparr>"
  have n: "progress_indicator_base_new 0 100 1 0 = Inr ?p"
    by code_simp
  have r: "set_percentage_range ?p 0 400 100 = Inr demo_progress"
    by code_simp
  show ?thesis
    using step_percentage_needs_range [OF n r, of 10 5] by simp
qed

text \<open>
  Claim C10. The assignment \<open>x = y\<close> gives \<open>x\<close> the range bounds, step value, position,
  percentage fields and last-update tick of \<open>y\<close> and leaves the time predictor of \<open>x\<close>
  as it was; the copy constructor copies every field, the time predictor included.
\<close>

theorem assign_keeps_predictor:
  "m_minRange (assign x y) = m_minRange y \<and>
   m_maxRange (assign x y) = m_maxRange y \<and>
   m_stepValue (assign x y) = m_stepValue y \<and>
   m_current (assign x y) = m_current y \<and>
   m_percentageChecker (assign x y) = m_percentageChecker y \<and>
   m_percentageValue (assign x y) = m_percentageValue y \<and>
   m_percentageUnit (assign x y) = m_percentageUnit y \<and>
   m_lastUpdate (assign x y) = m_lastUpdate y \<and>
   m_predictor (assign x y) = m_predictor x \<and>
   progress_indicator_base_copy y = y \<and>
   m_predictor (progress_indicator_base_copy y) = m_predictor y"
  by (simp add: assign_def progress_indicator_base_copy_def)

section \<open>Properties of device descriptions\<close>

lemma skip_component_eq:
  "t \<le> length path \<Longrightarrow>
   skip_component path t = t + length (takeWhile (\<lambda>c. c \<noteq> CHR '':'') (drop t path))"
proof (induction path t rule: skip_component.induct)
  case (1 path s)
  show ?case
  proof (cases "s < length path")
    case True
    then have d: "drop s path = path ! s # drop (Suc s) path"
      by (simp add: Cons_nth_drop_Suc)
    show ?thesis
      using True 1 by (subst skip_component.simps) (simp add: d)
  next
    case False
    then show ?thesis
      using 1 by (subst skip_component.simps) simp
  qed
qed

lemma split_colon_not_Nil: "split_colon xs \<noteq> []"
  by (induction xs) auto

lemma split_colon_unfold:
  "split_colon xs =
     (if length (takeWhile (\<lambda>c. c \<noteq> CHR '':'') xs) < length xs
      then takeWhile (\<lambda>c. c \<noteq> CHR '':'') xs #
           split_colon (drop (Suc (length (takeWhile (\<lambda>c. c \<noteq> CHR '':'') xs))) xs)
      else [takeWhile (\<lambda>c. c \<noteq> CHR '':'') xs])"
proof (induction xs)
  case Nil
  then show ?case by simp
next
  case (Cons a xs)
  show ?case
  proof (cases "a = CHR '':''")
    case True
    then show ?thesis by simp
  next
    case False
    then show ?thesis
      using Cons.IH by (auto split: if_splits)
  qed
qed

lemma length_split_colon:
  "length (split_colon xs) = count_list xs CHR '':'' + 1"
proof (induction xs)
  case Nil
  then show ?case by simp
next
  case (Cons a xs)
  then show ?case
    using split_colon_not_Nil [of xs] by (cases "split_colon xs") auto
qed

lemma split_colon_plain:
  "CHR '':'' \<notin> set c \<Longrightarrow> split_colon c = [c]"
  by (induction c) auto

lemma split_colon_append:
  "CHR '':'' \<notin> set c \<Longrightarrow> split_colon (c @ CHR '':'' # rest) = c # split_colon rest"
  by (induction c) auto

lemma split_join_colon:
  "comps \<noteq> [] \<Longrightarrow> \<forall>c \<in> set comps. CHR '':'' \<notin> set c \<Longrightarrow>
   split_colon (join_colon comps) = comps"
proof (induction comps rule: join_colon.induct)
  case 1
  then show ?case by simp
next
  case (2 c)
  then show ?case by (simp add: split_colon_plain)
next
  case (3 c v va)
  then show ?case by (simp add: split_colon_append)
qed

lemma copy_components_done:
  "\<not> ii < n \<Longrightarrow> copy_components path n ii t av = Inr av"
  by (subst copy_components.simps) simp

lemma count_components_eq:
  "count_components xs n = n + word_of_nat (count_list xs CHR '':'')"
  by (induction xs arbitrary: n) auto

lemma count_components_split:
  "count_components path 1 = word_of_nat (length (split_colon path))"
  by (simp add: count_components_eq length_split_colon)

lemma copy_components_take:
  assumes "t \<le> length path" "length av = n" "ii \<le> n"
    and "n - ii \<le> length (split_colon (drop t path))"
  shows "copy_components path n ii t av =
           Inr (take ii av @ take (n - ii) (split_colon (drop t path)))"
  using assms
proof (induction k \<equiv> "n - ii" arbitrary: ii t av)
  case 0
  then have "\<not> ii < n" "ii = length av"
    by simp_all
  then show ?case
    using 0 by (simp add: copy_components_done)
next
  case (Suc k)
  let ?P = "\<lambda>c. c \<noteq> CHR '':''"
  let ?xs = "drop t path"
  let ?w = "takeWhile ?P ?xs"
  let ?s = "skip_component path t"
  have ii: "ii < n"
    using Suc.hyps(2) by simp
  have s: "?s = t + length ?w"
    by (rule skip_component_eq [OF Suc.prems(1)])
  have w: "take (?s - t) ?xs = ?w"
    by (simp add: s takeWhile_eq_take [symmetric])
  have lw: "length ?w \<le> length ?xs"
    by (rule length_takeWhile_le)
  have k: "k = n - (ii + 1)" and nk: "n - ii = Suc k"
    using Suc.hyps(2) by simp_all
  have tk: "take (ii + 1) (av[ii := ?w]) = take ii av @ [?w]"
    using ii Suc.prems(2) by (simp add: take_Suc_conv_app_nth)
  show ?case
  proof (cases "length ?w < length ?xs")
    case True
    then have sl: "?s < length path"
      using s Suc.prems(1) by simp
    have "\<not> ?P (?xs ! length ?w)"
      using True by (rule nth_length_takeWhile)
    then have colon: "path ! ?s = CHR '':''"
      using s sl Suc.prems(1) by (simp add: add.commute)
    have sp: "split_colon ?xs = ?w # split_colon (drop (?s + 1) path)"
      using True by (subst split_colon_unfold) (simp add: s add.commute)
    have len: "n - (ii + 1) \<le> length (split_colon (drop (?s + 1) path))"
      using Suc.prems(4) sp by simp
    have rec: "copy_components path n (ii + 1) (?s + 1) (av[ii := ?w]) =
          Inr (take (ii + 1) (av[ii := ?w]) @
               take (n - (ii + 1)) (split_colon (drop (?s + 1) path)))"
      using sl Suc.prems(2) ii len by (intro Suc.hyps(1) [OF k]) simp_all
    have "copy_components path n ii t av =
          copy_components path n (ii + 1) (?s + 1) (av[ii := take (?s - t) ?xs])"
      using ii sl colon by (subst copy_components.simps) (simp add: Let_def)
    then show ?thesis
      unfolding w rec tk sp nk k [symmetric] by simp
  next
    case False
    have sp: "split_colon ?xs = [?w]"
      using False by (subst split_colon_unfold) simp
    have last: "ii = n - 1" "\<not> ii + 1 < n" and k0: "k = 0"
      using Suc.prems(4) sp ii nk by simp_all
    have upd: "av[ii := ?w] = take ii av @ [?w]"
      using ii last Suc.prems(2) by (simp add: upd_conv_take_nth_drop)
    have "copy_components path n ii t av =
          copy_components path n (ii + 1) (?s + 1) (av[ii := take (?s - t) ?xs])"
      using ii last(1) by (subst copy_components.simps) (simp add: Let_def)
    then show ?thesis
      unfolding w copy_components_done [OF last(2)] upd sp nk k0 by simp
  qed
qed

lemma dispose_contents_valid:
  assumes "valid_device dev"
  shows "\<exists>dev1. dispose_contents dev = Inr dev1"
  using assms
  by (auto simp: valid_device_def dispose_contents_def split: argv_pointer.splits)

lemma set_to_path_result:
  assumes "valid_device dev"
  shows "set_to_path dev path =
     Inr (AMI_ERROR_NO_ERROR,
          \<lparr>argc = word_of_nat (length (split_colon path)),
           argv = Array (take (unat (word_of_nat (length (split_colon path)) :: 32 word))
                           (split_colon path))\<rparr>)"
proof -
  let ?W = "word_of_nat (length (split_colon path)) :: 32 word"
  let ?n = "unat ?W"
  from dispose_contents_valid [OF assms] obtain dev1 where d: "dispose_contents dev = Inr dev1"
    by blast
  have "?n = length (split_colon path) mod 2 ^ 32"
    by (simp add: unat_of_nat)
  then have le: "?n \<le> length (split_colon path)"
    by simp
  have "copy_components path ?n 0 0 (replicate ?n []) =
          Inr (take 0 (replicate ?n []) @ take (?n - 0) (split_colon (drop 0 path)))"
    using le by (intro copy_components_take) simp_all
  then have c: "copy_components path ?n 0 0 (replicate ?n []) = Inr (take ?n (split_colon path))"
    by simp
  show ?thesis
    by (simp add: set_to_path_def d count_components_split c)
qed

lemma set_to_path_valid:
  assumes "valid_device dev" "set_to_path dev path = Inr (e, d)"
  shows "valid_device d"
proof -
  have "unat (word_of_nat (length (split_colon path)) :: 32 word) \<le> length (split_colon path)"
    by (simp add: unat_of_nat)
  then show ?thesis
    using assms(2) unfolding set_to_path_result [OF assms(1)]
    by (auto simp: valid_device_def)
qed

lemma AMI_device_new_valid:
  "AMI_device_new cnt strings = Inr dev \<Longrightarrow> valid_device dev"
  by (auto simp: AMI_device_new_def valid_device_def split: if_splits)

lemma set_to_path_uninitialised:
  "indeterminate \<noteq> 0 \<Longrightarrow> set_to_path (AMI_device_void indeterminate) path = Inl InvalidArgv"
  by (simp add: set_to_path_def dispose_contents_def AMI_device_void_def)

text \<open>
  Claim C7, amended. On a device whose fields agree, \<open>read_environment(name)\<close> returns
  \<open>AMI_ERROR_ENV_UNDEFINED\<close> exactly when the variable is not in the environment;
  otherwise it is \<open>set_to_path\<close> on the value of the variable and returns
  \<open>AMI_ERROR_NO_ERROR\<close>. \<open>set_to_path\<close> on the colon-separated list of \<open>d < 2^32\<close> paths
  (none of which holds a colon) leaves a device of arity \<open>d\<close>, the number of colons
  plus one, whose \<open>i\<close>-th string is the \<open>i\<close>-th path.
\<close>

theorem device_paths:
  assumes "valid_device dev"
    and "comps \<noteq> []" "\<forall>c \<in> set comps. CHR '':'' \<notin> set c" "length comps < 2 ^ 32"
  shows "((\<exists>d. read_environment env dev name = Inr (AMI_ERROR_ENV_UNDEFINED, d)) \<longleftrightarrow>
            env name = None) \<and>
         (\<forall>v. env name = Some v \<longrightarrow>
            read_environment env dev name = set_to_path dev v \<and>
            (\<exists>d. set_to_path dev v = Inr (AMI_ERROR_NO_ERROR, d))) \<and>
         (\<exists>d. set_to_path dev (join_colon comps) = Inr (AMI_ERROR_NO_ERROR, d) \<and>
              unat (arity d) = length comps \<and>
              unat (arity d) = count_list (join_colon comps) CHR '':'' + 1 \<and>
              (\<forall>i < length comps. device_index d i = Some (comps ! i)))"
proof (intro conjI)
  note r = set_to_path_result [OF assms(1)]
  show "(\<exists>d. read_environment env dev name = Inr (AMI_ERROR_ENV_UNDEFINED, d)) \<longleftrightarrow>
          env name = None"
    by (cases "env name") (simp_all add: read_environment_def r)
  show "\<forall>v. env name = Some v \<longrightarrow>
          read_environment env dev name = set_to_path dev v \<and>
          (\<exists>d. set_to_path dev v = Inr (AMI_ERROR_NO_ERROR, d))"
    by (simp add: read_environment_def r)
  have s: "split_colon (join_colon comps) = comps"
    by (rule split_join_colon [OF assms(2,3)])
  have l: "length comps = count_list (join_colon comps) CHR '':'' + 1"
    using length_split_colon [of "join_colon comps"] by (simp add: s)
  have u: "unat (word_of_nat (length comps) :: 32 word) = length comps"
    using assms(4) by (simp add: unat_of_nat)
  show "\<exists>d. set_to_path dev (join_colon comps) = Inr (AMI_ERROR_NO_ERROR, d) \<and>
          unat (arity d) = length comps \<and>
          unat (arity d) = count_list (join_colon comps) CHR '':'' + 1 \<and>
          (\<forall>i < length comps. device_index d i = Some (comps ! i))"
    using l u by (simp add: r s arity_def device_index_def)
qed

text \<open>An environment with one variable, holding two paths, read into a device of two strings.\<close>

theorem device_paths_witness:
  "valid_device \<lparr>argc = 2, argv = Array [''/a'', ''/b'']\<rparr> \<and>
   (\<exists>d. read_environment [''AMI_SINGLE_DEVICE'' \<mapsto> ''/tmp:/var/tmp'']
           \<lparr>argc = 2, argv = Array [''/a'', ''/b'']\<rparr> ''AMI_SINGLE_DEVICE''
         = Inr (AMI_ERROR_NO_ERROR, d) \<and>
        unat (arity d) = 2 \<and> device_index d 0 = Some ''/tmp'' \<and> device_index d 1 = Some ''/var/tmp'') \<and>
   read_environment [''AMI_SINGLE_DEVICE'' \<mapsto> ''/tmp:/var/tmp'']
     \<lparr>argc = 2, argv = Array [''/a'', ''/b'']\<rparr> ''TMPDIR''
     = Inr (AMI_ERROR_ENV_UNDEFINED, \<lparr>argc = 2, argv = Array [''/a'', ''/b'']\<rparr>)"
proof -
  let ?env = "[''AMI_SINGLE_DEVICE'' \<mapsto> ''/tmp:/var/tmp'']"
  let ?dev = "\<lparr>argc = 2, argv = Array [''/a'', ''/b'']\<rparr>"
  have v: "valid_device ?dev"
    by (simp add: valid_device_def)
  have a: "[''/tmp'', ''/var/tmp''] \<noteq> []"
    by simp
  have b: "\<forall>c \<in> set [''/tmp'', ''/var/tmp'']. CHR '':'' \<notin> set c"
    by simp
  have c: "length [''/tmp'', ''/var/tmp''] < 2 ^ 32"
    by simp
  have j: "join_colon [''/tmp'', ''/var/tmp''] = ''/tmp:/var/tmp''"
    by simp
  have e: "?env ''AMI_SINGLE_DEVICE'' = Some ''/tmp:/var/tmp''"
    by simp
  from device_paths [OF v a b c, of ?env "''AMI_SINGLE_DEVICE''"]
  have r: "read_environment ?env ?dev ''AMI_SINGLE_DEVICE'' = set_to_path ?dev ''/tmp:/var/tmp''"
    and "\<exists>d. set_to_path ?dev ''/tmp:/var/tmp'' = Inr (AMI_ERROR_NO_ERROR, d) \<and>
              unat (arity d) = length [''/tmp'', ''/var/tmp''] \<and>
              (\<forall>i < length [''/tmp'', ''/var/tmp'']. device_index d i = Some ([''/tmp'', ''/var/tmp''] ! i))"
    unfolding j using e by auto
  then obtain d where d: "set_to_path ?dev ''/tmp:/var/tmp'' = Inr (AMI_ERROR_NO_ERROR, d)"
    "unat (arity d) = 2" "device_index d 0 = Some ''/tmp''" "device_index d 1 = Some ''/var/tmp''"
    by auto
  have u: "read_environment ?env ?dev ''TMPDIR'' = Inr (AMI_ERROR_ENV_UNDEFINED, ?dev)"
    by (simp add: read_environment_def)
  show ?thesis
    using v r d u by auto
qed

lemma split_colon_empty_paths:
  "0 < n \<Longrightarrow> split_colon (join_colon (replicate n [])) = replicate n []"
  by (intro split_join_colon) auto

text \<open>
  Claim C7 as stated fails for a list of \<open>2^32\<close> paths: the 32-bit counter wraps
  around to 0, so the device has arity 0 and no string, where the claim has arity \<open>2^32\<close>.
\<close>

theorem arity_wraps_at_unsigned_int_range:
  "length (replicate unsigned_int_range ([] :: string)) = 2 ^ 32 \<and>
   set_to_path \<lparr>argc = 0, argv = Null\<rparr> (join_colon (replicate unsigned_int_range []))
     = Inr (AMI_ERROR_NO_ERROR, \<lparr>argc = 0, argv = Array []\<rparr>) \<and>
   arity \<lparr>argc = 0, argv = Array []\<rparr> = 0 \<and>
   device_index \<lparr>argc = 0, argv = Array []\<rparr> 0 = None"
proof -
  have p: "0 < unsigned_int_range"
    by (simp add: unsigned_int_range_def)
  have w: "(word_of_nat unsigned_int_range :: 32 word) = 0"
    by (simp add: unsigned_int_range_def)
  have v: "valid_device \<lparr>argc = 0, argv = Null\<rparr>"
    by (simp add: valid_device_def)
  have l: "length (replicate unsigned_int_range ([] :: string)) = 2 ^ 32"
    unfolding length_replicate unsigned_int_range_def ..
  have "set_to_path \<lparr>argc = 0, argv = Null\<rparr> (join_colon (replicate unsigned_int_range []))
     = Inr (AMI_ERROR_NO_ERROR, \<lparr>argc = 0, argv = Array []\<rparr>)"
    unfolding set_to_path_result [OF v] split_colon_empty_paths [OF p] length_replicate w
    by simp
  then show ?thesis
    using l by (simp add: arity_def device_index_def)
qed

section \<open>Properties of the parallel sort\<close>

lemma swo_irrefl: "strict_weak_ordering cmp \<Longrightarrow> \<not> cmp x x"
  by (simp add: strict_weak_ordering_def)

lemma swo_asym: "strict_weak_ordering cmp \<Longrightarrow> cmp x y \<Longrightarrow> \<not> cmp y x"
  unfolding strict_weak_ordering_def by blast

lemma swo_between:
  assumes "strict_weak_ordering cmp" "\<not> cmp p x" "\<not> cmp y p"
  shows "\<not> cmp y x"
proof
  assume yx: "cmp y x"
  have t: "\<And>a b c. cmp a b \<Longrightarrow> cmp b c \<Longrightarrow> cmp a c"
    using assms(1) unfolding strict_weak_ordering_def by blast
  have e: "\<And>a b c. \<not> cmp a b \<Longrightarrow> \<not> cmp b a \<Longrightarrow> \<not> cmp b c \<Longrightarrow> \<not> cmp c b \<Longrightarrow> \<not> cmp a c"
    using assms(1) unfolding strict_weak_ordering_def by blast
  have "\<not> cmp x p"
    using t [OF yx] assms(3) by blast
  moreover have "\<not> cmp p y"
    using t [OF _ yx] assms(2) by blast
  ultimately have "\<not> cmp y x"
    using e [of y p x] assms(2,3) by blast
  with yx show False by simp
qed

lemma scan_last_stops:
  assumes "scan_last cmp xs l = Inr l'"
  shows "l' < l \<and> \<not> cmp (xs ! 0) (xs ! l') \<and> (\<forall>i. l' < i \<and> i < l \<longrightarrow> cmp (xs ! 0) (xs ! i))"
  using assms
proof (induction l)
  case 0
  then show ?case by simp
next
  case (Suc l)
  show ?case
  proof (cases "cmp (xs ! 0) (xs ! l)")
    case True
    then have "scan_last cmp xs l = Inr l'"
      using Suc.prems by simp
    from Suc.IH [OF this] show ?thesis
      using True by (auto simp: less_Suc_eq)
  next
    case False
    then show ?thesis
      using Suc.prems by auto
  qed
qed

lemma scan_last_finds:
  assumes "j < l" "\<not> cmp (xs ! 0) (xs ! j)"
  shows "\<exists>l'. scan_last cmp xs l = Inr l' \<and> j \<le> l'"
  using assms
proof (induction l)
  case 0
  then show ?case by simp
next
  case (Suc l)
  show ?case
  proof (cases "cmp (xs ! 0) (xs ! l)")
    case True
    with Suc.prems have "j < l"
      by (cases "j = l") auto
    from Suc.IH [OF this Suc.prems(2)] show ?thesis
      using True by simp
  next
    case False
    then show ?thesis
      using Suc.prems by auto
  qed
qed

lemma scan_first_stops:
  assumes "first \<le> lst" "lst < length xs"
  shows "\<exists>f. scan_first cmp xs first lst = Inr f \<and> first \<le> f \<and> f \<le> lst \<and>
           (\<forall>i. first < i \<and> i < f \<longrightarrow> cmp (xs ! i) (xs ! 0)) \<and>
           (f < lst \<longrightarrow> first < f \<and> \<not> cmp (xs ! f) (xs ! 0))"
  using assms
proof (induction cmp xs first lst rule: scan_first.induct)
  case (1 cmp xs first lst)
  show ?case
  proof (cases "first = lst")
    case True
    then show ?thesis
      by (subst scan_first.simps) auto
  next
    case False
    then have lt: "first + 1 \<le> lst" "\<not> length xs \<le> first + 1"
      using "1.prems" by simp_all
    show ?thesis
    proof (cases "cmp (xs ! (first + 1)) (xs ! 0)")
      case True
      from "1.IH" [OF False lt(2) True lt(1) "1.prems"(2)] obtain f where
        f: "scan_first cmp xs (first + 1) lst = Inr f" "first + 1 \<le> f" "f \<le> lst"
        "\<forall>i. first + 1 < i \<and> i < f \<longrightarrow> cmp (xs ! i) (xs ! 0)"
        "f < lst \<longrightarrow> first + 1 < f \<and> \<not> cmp (xs ! f) (xs ! 0)"
        by blast
      have "scan_first cmp xs first lst = Inr f"
        using False lt(2) True f(1) by (subst scan_first.simps) simp
      moreover have "\<forall>i. first < i \<and> i < f \<longrightarrow> cmp (xs ! i) (xs ! 0)"
      proof (intro allI impI)
        fix i assume "first < i \<and> i < f"
        then show "cmp (xs ! i) (xs ! 0)"
          using f(4) True by (cases "i = first + 1") auto
      qed
      ultimately show ?thesis
        using f(2,3,5) by auto
    next
      case nc: False
      have "scan_first cmp xs first lst = Inr (first + 1)"
        using False lt(2) nc by (subst scan_first.simps) simp
      then show ?thesis
        using lt(1) nc by auto
    qed
  qed
qed

lemma nth_iter_swap:
  "i < length xs \<Longrightarrow> j < length xs \<Longrightarrow>
   iter_swap xs i j ! k = (if k = j then xs ! i else if k = i then xs ! j else xs ! k)"
  by (auto simp: iter_swap_def nth_list_update)

lemma mset_iter_swap:
  "i < length xs \<Longrightarrow> j < length xs \<Longrightarrow> mset (iter_swap xs i j) = mset xs"
  using mset_swap [of j xs i] by (simp add: iter_swap_def)

lemma partition_loop_correct:
  assumes "strict_weak_ordering cmp"
    and "first < lst" "lst \<le> length xs"
    and "\<forall>i \<le> first. \<not> cmp (xs ! 0) (xs ! i)"
    and "\<forall>i. lst \<le> i \<and> i < length xs \<longrightarrow> \<not> cmp (xs ! i) (xs ! 0)"
  shows "\<exists>ys l. partition_loop cmp xs first lst = Inr (ys, l) \<and> mset ys = mset xs \<and>
           ys ! 0 = xs ! 0 \<and> l < length xs \<and>
           (\<forall>i \<le> l. \<not> cmp (ys ! 0) (ys ! i)) \<and>
           (\<forall>i. l < i \<and> i < length xs \<longrightarrow> \<not> cmp (ys ! i) (ys ! 0))"
  using assms(2-5)
proof (induction lst arbitrary: xs first rule: less_induct)
  case (less lst)
  note asym = swo_asym [OF assms(1)]
  have "\<not> cmp (xs ! 0) (xs ! first)"
    using less.prems(3) by simp
  from scan_last_finds [of first lst cmp xs, OF less.prems(1) this] obtain l1 where
    l1: "scan_last cmp xs lst = Inr l1" "first \<le> l1"
    by blast
  from scan_last_stops [OF l1(1)] have
    sl: "l1 < lst" "\<not> cmp (xs ! 0) (xs ! l1)" "\<And>i. l1 < i \<Longrightarrow> i < lst \<Longrightarrow> cmp (xs ! 0) (xs ! i)"
    by blast+
  have l1len: "l1 < length xs"
    using sl(1) less.prems(2) by simp
  from scan_first_stops [OF l1(2) l1len, of cmp] obtain f1 where
    f1: "scan_first cmp xs first l1 = Inr f1" "first \<le> f1" "f1 \<le> l1"
    "\<And>i. first < i \<Longrightarrow> i < f1 \<Longrightarrow> cmp (xs ! i) (xs ! 0)"
    "f1 < l1 \<Longrightarrow> first < f1 \<and> \<not> cmp (xs ! f1) (xs ! 0)"
    by blast
  have low: "\<not> cmp (xs ! 0) (xs ! i)" if "i < f1" for i
  proof (cases "i \<le> first")
    case True
    then show ?thesis using less.prems(3) by simp
  next
    case False
    then have "cmp (xs ! i) (xs ! 0)"
      using f1(4) that by simp
    then show ?thesis by (rule asym)
  qed
  have high: "\<not> cmp (xs ! i) (xs ! 0)" if "l1 < i" "i < length xs" for i
  proof (cases "i < lst")
    case True
    then have "cmp (xs ! 0) (xs ! i)"
      using sl(3) that by simp
    then show ?thesis by (rule asym)
  next
    case False
    then show ?thesis using less.prems(4) that by simp
  qed
  show ?case
  proof (cases "f1 = l1")
    case True
    have r: "partition_loop cmp xs first lst = Inr (xs, l1)"
      using l1(1) f1(1) True by (subst partition_loop.simps) simp
    have "\<forall>i \<le> l1. \<not> cmp (xs ! 0) (xs ! i)"
    proof (intro allI impI)
      fix i assume "i \<le> l1"
      then show "\<not> cmp (xs ! 0) (xs ! i)"
        using low [of i] sl(2) True by (cases "i = l1") auto
    qed
    moreover have "\<forall>i. l1 < i \<and> i < length xs \<longrightarrow> \<not> cmp (xs ! i) (xs ! 0)"
      using high by blast
    ultimately show ?thesis
      using r l1len by blast
  next
    case False
    then have lt: "f1 < l1" "first < f1" and nf: "\<not> cmp (xs ! f1) (xs ! 0)"
      using f1(3) f1(5) by auto
    let ?ys = "iter_swap xs f1 l1"
    have f1len: "f1 < length xs"
      using lt(1) l1len by simp
    have nth: "?ys ! k = (if k = l1 then xs ! f1 else if k = f1 then xs ! l1 else xs ! k)" for k
      by (rule nth_iter_swap [OF f1len l1len])
    have y0: "?ys ! 0 = xs ! 0"
      using lt by (simp add: nth)
    have r: "partition_loop cmp xs first lst = partition_loop cmp ?ys f1 l1"
      using l1(1) f1(1) False by (subst partition_loop.simps) simp
    have p3: "\<forall>i \<le> f1. \<not> cmp (?ys ! 0) (?ys ! i)"
    proof (intro allI impI)
      fix i assume "i \<le> f1"
      then show "\<not> cmp (?ys ! 0) (?ys ! i)"
        using low [of i] sl(2) lt by (cases "i = f1") (auto simp: nth y0)
    qed
    have p4: "\<forall>i. l1 \<le> i \<and> i < length ?ys \<longrightarrow> \<not> cmp (?ys ! i) (?ys ! 0)"
    proof (intro allI impI)
      fix i assume "l1 \<le> i \<and> i < length ?ys"
      then show "\<not> cmp (?ys ! i) (?ys ! 0)"
        using high [of i] nf lt by (cases "i = l1") (auto simp: nth y0)
    qed
    have "l1 \<le> length ?ys"
      using l1len by simp
    from less.IH [OF sl(1) lt(1) this p3 p4] obtain zs l where
      z: "partition_loop cmp ?ys f1 l1 = Inr (zs, l)" "mset zs = mset ?ys"
      "zs ! 0 = ?ys ! 0" "l < length ?ys"
      "\<forall>i \<le> l. \<not> cmp (zs ! 0) (zs ! i)"
      "\<forall>i. l < i \<and> i < length ?ys \<longrightarrow> \<not> cmp (zs ! i) (zs ! 0)"
      by blast
    have "mset zs = mset xs"
      using z(2) mset_iter_swap [OF f1len l1len] by simp
    then show ?thesis
      using r z y0 by auto
  qed
qed

lemma median_cases: "median cmp xs a b c = a \<or> median cmp xs a b c = b \<or> median cmp xs a b c = c"
  by (simp add: median_def)

lemma median_less:
  "a < n \<Longrightarrow> b < n \<Longrightarrow> c < n \<Longrightarrow> median cmp xs a b c < n"
  using median_cases [of cmp xs a b c] by auto

lemma samples_in_range:
  assumes "0 < n"
  shows "n div 8 * 7 < (n :: nat)"
proof (cases "n div 8 = 0")
  case True
  then show ?thesis using assms by simp
next
  case False
  have "n div 8 * 8 \<le> n"
    by simp
  then show ?thesis
    using False by linarith
qed

lemma pick_pivot_less:
  assumes "xs \<noteq> []"
  shows "pick_pivot cmp xs < length xs"
proof -
  let ?n = "length xs"
  let ?s = "?n div 8"
  have n: "0 < ?n"
    using assms by simp
  have s7: "?s * 7 < ?n"
    by (rule samples_in_range [OF n])
  have le: "?s * k \<le> ?s * 7" if "k \<le> 7" for k
    using that by simp
  have r: "?s * k < ?n" if "k \<le> 7" for k
    using le [OF that] s7 by linarith
  have "median cmp xs 0 ?s (?s * 2) < ?n"
    using n r [of 1] r [of 2] by (intro median_less) simp_all
  moreover have "median cmp xs (?s * 3) (?s * 4) (?s * 5) < ?n"
    using r [of 3] r [of 4] r [of 5] by (intro median_less) simp_all
  moreover have "median cmp xs (?s * 6) (?s * 7) (?n - 1) < ?n"
    using n r [of 6] r [of 7] by (intro median_less) simp_all
  ultimately show ?thesis
    using assms by (simp add: pick_pivot_def Let_def median_less)
qed

lemma partition_pivot_correct:
  assumes "strict_weak_ordering cmp" "xs \<noteq> []"
  shows "\<exists>ys p. partition_pivot cmp xs = Inr (ys, p) \<and> mset ys = mset xs \<and> p < length xs \<and>
           (\<forall>i < p. \<not> cmp (ys ! p) (ys ! i)) \<and>
           (\<forall>i. p < i \<and> i < length xs \<longrightarrow> \<not> cmp (ys ! i) (ys ! p))"
proof -
  let ?xs = "iter_swap xs (pick_pivot cmp xs) 0"
  have n: "0 < length xs"
    using assms(2) by simp
  have m1: "mset ?xs = mset xs"
    using pick_pivot_less [OF assms(2)] n by (intro mset_iter_swap)
  have a: "0 < length ?xs" "length ?xs \<le> length ?xs"
    using n by simp_all
  have b: "\<forall>i \<le> 0. \<not> cmp (?xs ! 0) (?xs ! i)"
    using swo_irrefl [OF assms(1)] by simp
  have c: "\<forall>i. length ?xs \<le> i \<and> i < length ?xs \<longrightarrow> \<not> cmp (?xs ! i) (?xs ! 0)"
    by auto
  from partition_loop_correct [OF assms(1) a b c] obtain zs l where
    z: "partition_loop cmp ?xs 0 (length ?xs) = Inr (zs, l)" "mset zs = mset ?xs"
    "l < length ?xs" "\<forall>i \<le> l. \<not> cmp (zs ! 0) (zs ! i)"
    "\<forall>i. l < i \<and> i < length ?xs \<longrightarrow> \<not> cmp (zs ! i) (zs ! 0)"
    by blast
  have lz: "length zs = length xs"
    using partition_loop_bounds [OF z(1)] by simp
  let ?ys = "iter_swap zs l 0"
  have l: "l < length zs" and z0: "0 < length zs"
    using z(3) lz n by simp_all
  have nth: "?ys ! k = (if k = 0 then zs ! l else if k = l then zs ! 0 else zs ! k)" for k
    by (rule nth_iter_swap [OF l z0])
  have yl: "?ys ! l = zs ! 0"
    by (simp add: nth)
  have r: "partition_pivot cmp xs = Inr (?ys, l)"
    using assms(2) z(1) by (simp add: partition_pivot_def unguarded_partition_def)
  have m: "mset ?ys = mset xs"
    using mset_iter_swap [OF l z0] z(2) m1 by simp
  have lo: "\<forall>i < l. \<not> cmp (?ys ! l) (?ys ! i)"
  proof (intro allI impI)
    fix i assume "i < l"
    then show "\<not> cmp (?ys ! l) (?ys ! i)"
      using z(4) by (simp add: yl nth)
  qed
  have hi: "\<forall>i. l < i \<and> i < length xs \<longrightarrow> \<not> cmp (?ys ! i) (?ys ! l)"
  proof (intro allI impI)
    fix i assume "l < i \<and> i < length xs"
    then show "\<not> cmp (?ys ! i) (?ys ! l)"
      using z(5) by (simp add: yl nth)
  qed
  show ?thesis
    using r m z(3) lo hi by auto
qed

lemma qsort_job_correct:
  assumes "strict_weak_ordering cmp" "sorts cmp std_sort" "0 < min_size"
  shows "\<exists>ys. qsort_job min_size cmp std_sort xs = Inr ys \<and> mset ys = mset xs \<and>
           sorted_wrt (\<lambda>x y. \<not> cmp y x) ys"
proof (induction xs rule: length_induct)
  case (1 xs)
  show ?case
  proof (cases "min_size \<le> length xs")
    case False
    then have "qsort_job min_size cmp std_sort xs = Inr (std_sort xs)"
      by (subst qsort_job.simps) simp
    then show ?thesis
      using assms(2) by (simp add: sorts_def)
  next
    case True
    then have ne: "xs \<noteq> []"
      using assms(3) by auto
    from partition_pivot_correct [OF assms(1) ne] obtain ys p where
      p: "partition_pivot cmp xs = Inr (ys, p)" "mset ys = mset xs" "p < length xs"
      "\<forall>i < p. \<not> cmp (ys ! p) (ys ! i)"
      "\<forall>i. p < i \<and> i < length xs \<longrightarrow> \<not> cmp (ys ! i) (ys ! p)"
      by blast
    have ly: "length ys = length xs"
      using partition_pivot_bounds [OF p(1)] by simp
    have "length (take p ys) < length xs"
      using p(3) ly by simp
    from 1 [rule_format, OF this] obtain left where
      l: "qsort_job min_size cmp std_sort (take p ys) = Inr left" "mset left = mset (take p ys)"
      "sorted_wrt (\<lambda>x y. \<not> cmp y x) left"
      by blast
    have "length (drop (p + 1) ys) < length xs"
      using p(3) ly by simp
    from 1 [rule_format, OF this] obtain right where
      r: "qsort_job min_size cmp std_sort (drop (p + 1) ys) = Inr right"
      "mset right = mset (drop (p + 1) ys)"
      "sorted_wrt (\<lambda>x y. \<not> cmp y x) right"
      by blast
    have res: "qsort_job min_size cmp std_sort xs = Inr (left @ ys ! p # right)"
      using True p(1) l(1) r(1) by (subst qsort_job.simps) simp
    have "mset (left @ ys ! p # right) = mset (take p ys @ ys ! p # drop (Suc p) ys)"
      using l(2) r(2) by simp
    also have "take p ys @ ys ! p # drop (Suc p) ys = ys"
      using p(3) ly by (simp add: id_take_nth_drop [symmetric])
    finally have m: "mset (left @ ys ! p # right) = mset xs"
      using p(2) by simp
    have lo: "\<not> cmp (ys ! p) x" if "x \<in> set left" for x
    proof -
      from that have "x \<in> set (take p ys)"
        using mset_eq_setD [OF l(2)] by simp
      then obtain i where "i < p" "x = ys ! i"
        using p(3) ly by (auto simp: in_set_conv_nth)
      then show ?thesis using p(4) by simp
    qed
    have hi: "\<not> cmp y (ys ! p)" if "y \<in> set right" for y
    proof -
      from that have "y \<in> set (drop (p + 1) ys)"
        using mset_eq_setD [OF r(2)] by simp
      then obtain i where "i < length ys - (p + 1)" "y = ys ! (p + 1 + i)"
        by (auto simp: in_set_conv_nth)
      then show ?thesis using p(5) ly by simp
    qed
    have cross: "\<not> cmp y x" if "x \<in> set left" "y \<in> set right" for x y
      using swo_between [OF assms(1) lo [OF that(1)] hi [OF that(2)]] .
    have "sorted_wrt (\<lambda>x y. \<not> cmp y x) (left @ ys ! p # right)"
      unfolding sorted_wrt_append sorted_wrt.simps set_simps
      using l(3) r(3) lo hi cross by blast
    then show ?thesis
      using res m by simp
  qed
qed

lemma median_is_median:
  assumes "\<forall>x y. cmp x y \<longrightarrow> \<not> cmp y x"
  shows "is_median cmp xs (median cmp xs a b c) a b c"
  using assms unfolding median_def is_median_def between_def by (simp split: if_splits)

text \<open>
  Claim C5. On the empty range \<open>pick_pivot\<close> returns \<open>a\<close> (index 0). On a range of
  \<open>n > 0\<close> elements, with \<open>s = n div 8\<close> and a comparator that never holds both ways (as
  every strict weak ordering), it returns an index of the range that is the median of
  three indices, themselves the medians of the sample triples \<open>(0, s, 2s)\<close>,
  \<open>(3s, 4s, 5s)\<close> and \<open>(6s, 7s, n - 1)\<close>.
\<close>

theorem pick_pivot_ninther:
  assumes "\<forall>x y. cmp x y \<longrightarrow> \<not> cmp y x" "xs \<noteq> []"
  shows "pick_pivot cmp [] = 0 \<and>
         pick_pivot cmp xs < length xs \<and>
         pick_pivot cmp xs =
           median cmp xs
             (median cmp xs 0 (length xs div 8) (length xs div 8 * 2))
             (median cmp xs (length xs div 8 * 3) (length xs div 8 * 4) (length xs div 8 * 5))
             (median cmp xs (length xs div 8 * 6) (length xs div 8 * 7) (length xs - 1)) \<and>
         (\<exists>m1 m2 m3.
            is_median cmp xs m1 0 (length xs div 8) (length xs div 8 * 2) \<and>
            is_median cmp xs m2 (length xs div 8 * 3) (length xs div 8 * 4) (length xs div 8 * 5) \<and>
            is_median cmp xs m3 (length xs div 8 * 6) (length xs div 8 * 7) (length xs - 1) \<and>
            is_median cmp xs (pick_pivot cmp xs) m1 m2 m3)"
proof (intro conjI)
  let ?s = "length xs div 8"
  let ?m1 = "median cmp xs 0 ?s (?s * 2)"
  let ?m2 = "median cmp xs (?s * 3) (?s * 4) (?s * 5)"
  let ?m3 = "median cmp xs (?s * 6) (?s * 7) (length xs - 1)"
  show "pick_pivot cmp [] = 0"
    by (simp add: pick_pivot_def)
  show "pick_pivot cmp xs < length xs"
    by (rule pick_pivot_less [OF assms(2)])
  show p: "pick_pivot cmp xs = median cmp xs ?m1 ?m2 ?m3"
    using assms(2) by (simp add: pick_pivot_def Let_def)
  have "is_median cmp xs ?m1 0 ?s (?s * 2)"
    "is_median cmp xs ?m2 (?s * 3) (?s * 4) (?s * 5)"
    "is_median cmp xs ?m3 (?s * 6) (?s * 7) (length xs - 1)"
    "is_median cmp xs (pick_pivot cmp xs) ?m1 ?m2 ?m3"
    unfolding p by (rule median_is_median [OF assms(1)])+
  then show "\<exists>m1 m2 m3.
            is_median cmp xs m1 0 ?s (?s * 2) \<and>
            is_median cmp xs m2 (?s * 3) (?s * 4) (?s * 5) \<and>
            is_median cmp xs m3 (?s * 6) (?s * 7) (length xs - 1) \<and>
            is_median cmp xs (pick_pivot cmp xs) m1 m2 m3"
    by (intro exI conjI)
qed

text \<open>On the fifteen elements of \<open>demo_range\<close> the step is 1 and the pivot is index 4.\<close>

theorem pick_pivot_ninther_witness:
  "pick_pivot (<) demo_range = 4 \<and> demo_range ! 4 = 5 \<and>
   (\<exists>m1 m2 m3.
      is_median (<) demo_range m1 0 1 2 \<and>
      is_median (<) demo_range m2 3 4 5 \<and>
      is_median (<) demo_range m3 6 7 14 \<and>
      is_median (<) demo_range (pick_pivot (<) demo_range) m1 m2 m3)"
proof -
  have a: "\<forall>x y :: nat. x < y \<longrightarrow> \<not> y < x"
    by simp
  have n: "demo_range \<noteq> []"
    by (simp add: demo_range_def)
  have e: "pick_pivot (<) demo_range = 4" "demo_range ! 4 = 5"
    by code_simp+
  have s: "length demo_range div 8 = 1" "length demo_range - 1 = 14"
    by (simp_all add: demo_range_def)
  show ?thesis
    using pick_pivot_ninther [OF a n] e unfolding s by simp
qed

text \<open>
  Claim C1. For a strict weak ordering \<open>cmp\<close>, a \<open>std::sort\<close> that sorts, and a
  threshold \<open>min_size > 0\<close>, \<open>parallel_sort\<close> returns on every range, with a permutation
  of the range in which no later element is below an earlier one, on the small-range
  path (\<open>length xs < min_size\<close>) and on the job-decomposed path alike.
\<close>

theorem parallel_sort_sorts:
  assumes "strict_weak_ordering cmp" "sorts cmp std_sort" "0 < min_size"
  shows "\<exists>ys. parallel_sort min_size cmp std_sort xs = Inr ys \<and> mset ys = mset xs \<and>
           (\<forall>i j. i < j \<and> j < length ys \<longrightarrow> \<not> cmp (ys ! j) (ys ! i))"
proof (cases "length xs < min_size")
  case True
  then have "parallel_sort min_size cmp std_sort xs = Inr (std_sort xs)"
    by (simp add: parallel_sort_def)
  moreover have "mset (std_sort xs) = mset xs" "sorted_wrt (\<lambda>x y. \<not> cmp y x) (std_sort xs)"
    using assms(2) by (simp_all add: sorts_def)
  ultimately show ?thesis
    by (simp add: sorted_wrt_iff_nth_less)
next
  case False
  then have "parallel_sort min_size cmp std_sort xs = qsort_job min_size cmp std_sort xs"
    by (simp add: parallel_sort_def)
  then show ?thesis
    using qsort_job_correct [OF assms, of xs] by (auto simp: sorted_wrt_iff_nth_less)
qed

text \<open>
  Fifteen numbers with \<open>min_size = 3\<close>, which takes the job-decomposed path, sorted for
  \<open><\<close> with the library sort on the small parts.
\<close>

theorem parallel_sort_sorts_witness:
  "strict_weak_ordering ((<) :: nat \<Rightarrow> nat \<Rightarrow> bool) \<and>
   sorts (<) (sort :: nat list \<Rightarrow> nat list) \<and>
   parallel_sort 3 (<) sort demo_range = Inr [1, 1, 2, 3, 4, 5, 5, 5, 5, 6, 7, 8, 9, 9, 9] \<and>
   (\<exists>ys. parallel_sort 3 (<) sort demo_range = Inr ys \<and> mset ys = mset demo_range \<and>
         (\<forall>i j. i < j \<and> j < length ys \<longrightarrow> \<not> ys ! j < ys ! i))"
proof -
  have a: "strict_weak_ordering ((<) :: nat \<Rightarrow> nat \<Rightarrow> bool)"
    by (auto simp: strict_weak_ordering_def)
  have "(\<lambda>x y :: nat. \<not> y < x) = (\<le>)"
    by (intro ext) auto
  then have b: "sorts (<) (sort :: nat list \<Rightarrow> nat list)"
    by (simp add: sorts_def)
  have c: "(0 :: nat) < 3"
    by simp
  have e: "parallel_sort 3 (<) sort demo_range = Inr [1, 1, 2, 3, 4, 5, 5, 5, 5, 6, 7, 8, 9, 9, 9]"
    by code_simp
  show ?thesis
    using parallel_sort_sorts [OF a b c, of demo_range] a b e by blast
qed

end
